theory Spec2Isabelle
  imports Main "HOL-Library.AList" "HOL-Library.List_Lexorder"
begin

section \<open>Python values used by Ukkonen.py\<close>

text \<open>
  Exceptions the interpreter raises in the code paths of \<^verbatim>\<open>Ukkonen.py\<close>. The source
  defines no exception class of its own and contains no \<^verbatim>\<open>raise\<close> and no \<^verbatim>\<open>try\<close>.
\<close>

datatype error = IndexError | TypeError | AttributeError | RecursionError | KeyError

text \<open>
  Python sequence indexing: an index \<open>k\<close> with \<open>- len \<le> k < 0\<close> counts from the end,
  anything outside \<open>[- len, len)\<close> raises \<^verbatim>\<open>IndexError\<close>. The same rule applies to item
  assignment on a list.
\<close>

definition py_get :: "'a list \<Rightarrow> int \<Rightarrow> error + 'a" where
  "py_get xs k =
     (if 0 \<le> k \<and> k < int (length xs) then Inr (xs ! nat k)
      else if k < 0 \<and> - int (length xs) \<le> k then Inr (xs ! nat (k + int (length xs)))
      else Inl IndexError)"

definition py_set :: "'a list \<Rightarrow> int \<Rightarrow> 'a \<Rightarrow> error + 'a list" where
  "py_set xs k v =
     (if 0 \<le> k \<and> k < int (length xs) then Inr (xs[nat k := v])
      else if k < 0 \<and> - int (length xs) \<le> k then Inr (xs[nat (k + int (length xs)) := v])
      else Inl IndexError)"

text \<open>
  A text is the list of the code points of a Python \<^verbatim>\<open>str\<close> (\<^verbatim>\<open>ord\<close> of each
  character); \<open>ords\<close> reads an 8-bit literal that way, and the terminator \<^verbatim>\<open>"$"\<close>
  is code point 36.
\<close>

type_synonym str = "nat list"

definition ords :: "string \<Rightarrow> str" where
  "ords s = map of_char s"

definition dollar :: nat where
  "dollar = 36"

section \<open>class EndMarker\<close>

record EndMarker =
  marker_value :: int

definition EndMarker_init :: EndMarker where
  "EndMarker_init = \<lparr>marker_value = - 1\<rparr>"

definition increment :: "EndMarker \<Rightarrow> EndMarker" where
  "increment m = m\<lparr>marker_value := marker_value m + 1\<rparr>"

section \<open>class TrieNode\<close>

text \<open>
  Objects live in a store; a reference to a node is its index in the store, \<^verbatim>\<open>None\<close>
  is \<open>None\<close>. Every constructor call of the source passes an integer \<^verbatim>\<open>node_id\<close>;
  \<^verbatim>\<open>start_idx\<close> and \<^verbatim>\<open>end_idx\<close> stay \<^verbatim>\<open>None\<close> for the root.
\<close>

type_synonym ref = nat

record TrieNode =
  node_id :: int
  start_idx :: "int option"
  end_idx :: "int option"
  is_terminal :: bool
  children :: "ref option list"
  suffix_link :: "ref option"

definition TrieNode_init :: "int \<Rightarrow> int option \<Rightarrow> int option \<Rightarrow> bool \<Rightarrow> TrieNode" where
  "TrieNode_init nid s e t =
     \<lparr>node_id = nid, start_idx = s, end_idx = e, is_terminal = t,
      children = replicate 91 None, suffix_link = None\<rparr>"

definition get_child_at :: "TrieNode \<Rightarrow> int \<Rightarrow> error + ref option" where
  "get_child_at nd char_pos = py_get (children nd) char_pos"

definition add_child :: "TrieNode \<Rightarrow> int \<Rightarrow> ref \<Rightarrow> error + TrieNode" where
  "add_child nd char_pos new_child =
     (case py_set (children nd) char_pos (Some new_child) of
        Inl e \<Rightarrow> Inl e
      | Inr cs \<Rightarrow> Inr (nd\<lparr>children := cs\<rparr>))"

text \<open>
  \<^verbatim>\<open>end_index\<close> of a terminal node evaluates \<^verbatim>\<open>EndMarker().value\<close>: it constructs
  a new marker and reads its value.
\<close>

definition end_index :: "TrieNode \<Rightarrow> int option" where
  "end_index nd =
     (if is_terminal nd then Some (marker_value EndMarker_init) else end_idx nd)"

section \<open>class UkkonenSuffixTree\<close>

record UkkonenSuffixTree =
  input_str :: str
  heap :: "TrieNode list"
  root :: ref
  active_length :: int
  active_edge :: "ref option"
  active_node :: "ref option"
  global_end_marker :: EndMarker
  suffix_ids :: "int list"

text \<open>
  \<^verbatim>\<open>traverse_path\<close> is recursive; the first argument counts the frames the interpreter
  still allows, and running out of them is \<^verbatim>\<open>RecursionError\<close>.
\<close>

fun traverse_path :: "nat \<Rightarrow> UkkonenSuffixTree \<Rightarrow> ref \<Rightarrow> int \<Rightarrow> error + ref" where
  "traverse_path 0 st current_node len = Inl RecursionError"
| "traverse_path (Suc depth) st current_node len =
     (if is_terminal (heap st ! current_node) \<or> len = 0 then Inr current_node
      else
        (case active_node st of
           None \<Rightarrow> Inl AttributeError
         | Some cur \<Rightarrow>
             (case py_get (input_str st) (marker_value (global_end_marker st) - len) of
                Inl e \<Rightarrow> Inl e
              | Inr c \<Rightarrow>
                  (case get_child_at (heap st ! cur) (int c - 36) of
                     Inl e \<Rightarrow> Inl e
                   | Inr None \<Rightarrow> Inr cur
                   | Inr (Some edge_node) \<Rightarrow>
                       (case end_index (heap st ! edge_node) of
                          None \<Rightarrow> Inl TypeError
                        | Some e \<Rightarrow>
                            (case start_idx (heap st ! edge_node) of
                               None \<Rightarrow> Inl TypeError
                             | Some s \<Rightarrow>
                                 (if e - s > len then Inr cur
                                  else traverse_path depth st edge_node (len - (e - s)))))))))"

text \<open>
  The statements that change the store: constructing a node, \<^verbatim>\<open>node.add_child(...)\<close>,
  assigning \<^verbatim>\<open>node.start_idx\<close> and assigning \<^verbatim>\<open>node.suffix_link\<close>.
\<close>

definition new_node :: "UkkonenSuffixTree \<Rightarrow> TrieNode \<Rightarrow> UkkonenSuffixTree \<times> ref" where
  "new_node st nd = (st\<lparr>heap := heap st @ [nd]\<rparr>, length (heap st))"

definition node_add_child ::
  "UkkonenSuffixTree \<Rightarrow> ref \<Rightarrow> int \<Rightarrow> ref \<Rightarrow> error + UkkonenSuffixTree" where
  "node_add_child st r char_pos new_child =
     (case add_child (heap st ! r) char_pos new_child of
        Inl e \<Rightarrow> Inl e
      | Inr nd \<Rightarrow> Inr (st\<lparr>heap := (heap st)[r := nd]\<rparr>))"

definition set_start_idx :: "UkkonenSuffixTree \<Rightarrow> ref \<Rightarrow> int option \<Rightarrow> UkkonenSuffixTree" where
  "set_start_idx st r v = st\<lparr>heap := (heap st)[r := (heap st ! r)\<lparr>start_idx := v\<rparr>]\<rparr>"

definition set_suffix_link :: "UkkonenSuffixTree \<Rightarrow> ref \<Rightarrow> ref option \<Rightarrow> UkkonenSuffixTree" where
  "set_suffix_link st r v = st\<lparr>heap := (heap st)[r := (heap st ! r)\<lparr>suffix_link := v\<rparr>]\<rparr>"

text \<open>Rule 2.1 (lines 78-79): a new leaf below the active node \<open>an\<close>.\<close>

definition new_leaf_below ::
  "UkkonenSuffixTree \<Rightarrow> ref \<Rightarrow> int \<Rightarrow> int \<Rightarrow> int \<Rightarrow> error + UkkonenSuffixTree" where
  "new_leaf_below st an char_pos i j =
     (case new_node st (TrieNode_init j (Some (i - active_length st))
                          (Some (marker_value (global_end_marker st))) True) of
        (st1, new_leaf) \<Rightarrow> node_add_child st1 an char_pos new_leaf)"

text \<open>
  Rule 2.2 (lines 84-98): the edge from the active node \<open>an\<close> to \<open>ae\<close>
  (\<^verbatim>\<open>active_edge\<close>) is split. The result carries the new internal node, which becomes
  \<^verbatim>\<open>last_internal_node\<close>. Arithmetic on a \<^verbatim>\<open>start_idx\<close> that is \<^verbatim>\<open>None\<close> is a
  \<^verbatim>\<open>TypeError\<close>.
\<close>

definition split_edge ::
  "UkkonenSuffixTree \<Rightarrow> ref \<Rightarrow> ref \<Rightarrow> int \<Rightarrow> int \<Rightarrow> int \<Rightarrow> ref option
     \<Rightarrow> error + (UkkonenSuffixTree \<times> ref)" where
  "split_edge st an ae char_pos i j last_internal_node =
     (case py_get (input_str st) (i - 1) of
        Inl e \<Rightarrow> Inl e
      | Inr c_last \<Rightarrow>
     (case start_idx (heap st ! ae) of
        None \<Rightarrow> Inl TypeError
      | Some s \<Rightarrow>
     (case new_node st (TrieNode_init (int c_last) (Some s) (Some (s + active_length st - 1)) False) of
        (st1, new_internal) \<Rightarrow>
     (case node_add_child st1 an char_pos new_internal of
        Inl e \<Rightarrow> Inl e
      | Inr st2 \<Rightarrow>
     (case start_idx (heap st2 ! ae) of
        None \<Rightarrow> Inl TypeError
      | Some s2 \<Rightarrow>
     (case set_start_idx st2 ae (Some (s2 + (active_length st2 - 1))) of
        st3 \<Rightarrow>
     (case start_idx (heap st3 ! ae) of
        None \<Rightarrow> Inl TypeError
      | Some s3 \<Rightarrow>
     (case py_get (input_str st3) s3 of
        Inl e \<Rightarrow> Inl e
      | Inr c_edge \<Rightarrow>
     (case node_add_child st3 new_internal (int c_edge - 36) ae of
        Inl e \<Rightarrow> Inl e
      | Inr st4 \<Rightarrow>
     (case new_node st4 (TrieNode_init j (Some (i - 1))
                          (Some (marker_value (global_end_marker st4))) True) of
        (st5, new_leaf) \<Rightarrow>
     (case py_get (input_str st5) (i - 1) of
        Inl e \<Rightarrow> Inl e
      | Inr c_new \<Rightarrow>
     (case node_add_child st5 new_internal (int c_new - 36) new_leaf of
        Inl e \<Rightarrow> Inl e
      | Inr st6 \<Rightarrow>
     (case set_suffix_link st6 new_internal (Some (root st6)) of
        st7 \<Rightarrow>
     (case last_internal_node of
        None \<Rightarrow> Inr (st7, new_internal)
      | Some li \<Rightarrow> Inr (set_suffix_link st7 li (Some new_internal), new_internal)))))))))))))))"

text \<open>Lines 104-106, apart from \<^verbatim>\<open>j += 1\<close>, which the loop does.\<close>

definition follow_suffix_link :: "UkkonenSuffixTree \<Rightarrow> ref \<Rightarrow> UkkonenSuffixTree" where
  "follow_suffix_link st an =
     st\<lparr>active_node := suffix_link (heap st ! an), active_length := active_length st + 1\<rparr>"

text \<open>
  One iteration of the \<^verbatim>\<open>while j < i\<close> loop (lines 66-106): either the loop is left
  by \<^verbatim>\<open>break\<close> (Rule 3), or the iteration ends with a new \<^verbatim>\<open>last_internal_node\<close>.
\<close>

datatype flow = Broke UkkonenSuffixTree | Continued UkkonenSuffixTree "ref option"

definition extension ::
  "nat \<Rightarrow> UkkonenSuffixTree \<Rightarrow> int \<Rightarrow> int \<Rightarrow> ref option \<Rightarrow> error + flow" where
  "extension lim st0 i j last_internal_node =
     (case (if active_node st0 = Some (root st0) then st0\<lparr>active_length := i - j\<rparr> else st0) of
        st \<Rightarrow>
     (case active_node st of
        None \<Rightarrow> Inl AttributeError
      | Some an \<Rightarrow>
     (case traverse_path lim st an (active_length st) of
        Inl e \<Rightarrow> Inl e
      | Inr next_node \<Rightarrow>
     (case py_get (input_str st) (i - active_length st) of
        Inl e \<Rightarrow> Inl e
      | Inr c \<Rightarrow>
     (case get_child_at (heap st ! an) (int c - 36) of
        Inl e \<Rightarrow> Inl e
      | Inr None \<Rightarrow>
          (case new_leaf_below st an (int c - 36) i j of
             Inl e \<Rightarrow> Inl e
           | Inr st' \<Rightarrow> Inr (Continued (follow_suffix_link st' an) last_internal_node))
      | Inr (Some ae) \<Rightarrow>
     (case py_get (input_str st) (i - 1) of
        Inl e \<Rightarrow> Inl e
      | Inr c_last \<Rightarrow>
     (case start_idx (heap st ! ae) of
        None \<Rightarrow> Inl TypeError
      | Some s \<Rightarrow>
     (case py_get (input_str st) (s + active_length st - 1) of
        Inl e \<Rightarrow> Inl e
      | Inr c_edge \<Rightarrow>
          (if c_last \<noteq> c_edge then
             (case split_edge st an ae (int c - 36) i j last_internal_node of
                Inl e \<Rightarrow> Inl e
              | Inr (st', new_internal) \<Rightarrow>
                  Inr (Continued (follow_suffix_link st' an) (Some new_internal)))
           else Inr (Broke st))))))))))"

function extensions ::
  "nat \<Rightarrow> UkkonenSuffixTree \<Rightarrow> int \<Rightarrow> int \<Rightarrow> ref option \<Rightarrow> error + (UkkonenSuffixTree \<times> int)" where
  "extensions lim st i j last_internal_node =
     (if j < i then
        (case extension lim st i j last_internal_node of
           Inl e \<Rightarrow> Inl e
         | Inr (Broke st') \<Rightarrow> Inr (st', j)
         | Inr (Continued st' last') \<Rightarrow> extensions lim st' i (j + 1) last')
      else Inr (st, j))"
  by pat_completeness auto
termination
  by (relation "measure (\<lambda>(lim, st, i, j, l). nat (i - j))") auto

text \<open>The \<^verbatim>\<open>for i in range(len(self.input_str) + 1)\<close> loop, over the remaining values of \<open>i\<close>.\<close>

fun phases ::
  "nat \<Rightarrow> UkkonenSuffixTree \<Rightarrow> int list \<Rightarrow> int \<Rightarrow> error + (UkkonenSuffixTree \<times> int)" where
  "phases lim st [] j = Inr (st, j)"
| "phases lim st (i # rest) j =
     (case extensions lim (st\<lparr>global_end_marker := increment (global_end_marker st)\<rparr>) i j None of
        Inl e \<Rightarrow> Inl e
      | Inr (st', j') \<Rightarrow> phases lim st' rest j')"

definition build_suffix_tree :: "nat \<Rightarrow> UkkonenSuffixTree \<Rightarrow> error + UkkonenSuffixTree" where
  "build_suffix_tree lim st =
     (case phases lim st (map int [0..<length (input_str st) + 1]) 0 of
        Inl e \<Rightarrow> Inl e
      | Inr (st', j) \<Rightarrow> Inr st')"

text \<open>
  \<^verbatim>\<open>retrieve_suffix_ids\<close>, with the loop over the child table as a second function.
  Each nested call takes one of the frames the interpreter still allows.
\<close>

fun retrieve_suffix_ids ::
  "nat \<Rightarrow> UkkonenSuffixTree \<Rightarrow> ref option \<Rightarrow> error + UkkonenSuffixTree"
and retrieve_children ::
  "nat \<Rightarrow> UkkonenSuffixTree \<Rightarrow> ref option list \<Rightarrow> error + UkkonenSuffixTree" where
  "retrieve_suffix_ids 0 st node = Inl RecursionError"
| "retrieve_suffix_ids (Suc depth) st None = Inr st"
| "retrieve_suffix_ids (Suc depth) st (Some n) =
     (if is_terminal (heap st ! n)
      then Inr (st\<lparr>suffix_ids := suffix_ids st @ [node_id (heap st ! n)]\<rparr>)
      else retrieve_children depth st (children (heap st ! n)))"
| "retrieve_children depth st [] = Inr st"
| "retrieve_children depth st (None # rest) = retrieve_children depth st rest"
| "retrieve_children depth st (Some child # rest) =
     (case retrieve_suffix_ids depth st (Some child) of
        Inl e \<Rightarrow> Inl e
      | Inr st' \<Rightarrow> retrieve_children depth st' rest)"

text \<open>\<^verbatim>\<open>UkkonenSuffixTree.__init__\<close>: the state before \<^verbatim>\<open>build_suffix_tree\<close>, and the whole constructor.\<close>

definition initial_state :: "str \<Rightarrow> UkkonenSuffixTree" where
  "initial_state input =
     \<lparr>input_str = input @ [dollar],
      heap = [(TrieNode_init (- 1) None None False)\<lparr>suffix_link := Some 0\<rparr>],
      root = 0,
      active_length = 0,
      active_edge = None,
      active_node = Some 0,
      global_end_marker = EndMarker_init,
      suffix_ids = []\<rparr>"

definition UkkonenSuffixTree_init :: "nat \<Rightarrow> str \<Rightarrow> error + UkkonenSuffixTree" where
  "UkkonenSuffixTree_init lim input =
     (case build_suffix_tree lim (initial_state input) of
        Inl e \<Rightarrow> Inl e
      | Inr st \<Rightarrow> retrieve_suffix_ids lim st (Some (root st)))"

section \<open>main: the rank mapping and the queries\<close>

text \<open>
  Lines 171-183 of \<^verbatim>\<open>main\<close>. A \<^verbatim>\<open>dict\<close> is an association list in insertion order;
  assigning to a key that is present keeps its place. File reading and writing are outside
  the model: \<open>main\<close> takes the text and the parsed positions and returns \<^verbatim>\<open>res\<close>.
\<close>

type_synonym dict = "(int \<times> int) list"

definition suffix_dict_of :: "int list \<Rightarrow> dict" where
  "suffix_dict_of ids = fold (\<lambda>i d. AList.update (ids ! i) (int i + 1) d) [0..<length ids] []"

definition sorted_dict_of :: "dict \<Rightarrow> dict" where
  "sorted_dict_of d = sort_key fst d"

definition getitem :: "dict \<Rightarrow> int \<Rightarrow> error + int" where
  "getitem d k = (case map_of d k of None \<Rightarrow> Inl KeyError | Some v \<Rightarrow> Inr v)"

fun lookup_positions :: "dict \<Rightarrow> int list \<Rightarrow> int list \<Rightarrow> error + int list" where
  "lookup_positions d [] res = Inr res"
| "lookup_positions d (num # rest) res =
     (case getitem d (num - 1) of
        Inl e \<Rightarrow> Inl e
      | Inr ind \<Rightarrow> lookup_positions d rest (res @ [ind]))"

definition rank_mapping :: "nat \<Rightarrow> str \<Rightarrow> error + dict" where
  "rank_mapping lim input_string =
     (case UkkonenSuffixTree_init lim input_string of
        Inl e \<Rightarrow> Inl e
      | Inr uk \<Rightarrow> Inr (sorted_dict_of (suffix_dict_of (suffix_ids uk))))"

definition main :: "nat \<Rightarrow> str \<Rightarrow> int list \<Rightarrow> error + int list" where
  "main lim input_string positions =
     (case rank_mapping lim input_string of
        Inl e \<Rightarrow> Inl e
      | Inr sorted_dict \<Rightarrow> lookup_positions sorted_dict positions [])"

section \<open>The points of the construction\<close>

text \<open>
  \<open>reach lim input st i j li\<close>: the builder is at the test of \<^verbatim>\<open>while j < i\<close>
  in phase \<open>i\<close> of the construction for \<open>input\<close>, in state \<open>st\<close>, with
  \<^verbatim>\<open>last_internal_node\<close> equal to \<open>li\<close>. Phase 0 is entered from the state the
  constructor sets up; an iteration that does not break leads to the next test of the same
  phase; a \<^verbatim>\<open>break\<close> or a failed test leads to the next phase while
  \<^verbatim>\<open>range(len(self.input_str) + 1)\<close> has a next value.
\<close>

inductive reach :: "nat \<Rightarrow> str \<Rightarrow> UkkonenSuffixTree \<Rightarrow> int \<Rightarrow> int \<Rightarrow> ref option \<Rightarrow> bool"
  for lim :: nat and input :: str where
  first_phase:
    "reach lim input
       ((initial_state input)\<lparr>global_end_marker := increment (global_end_marker (initial_state input))\<rparr>)
       0 0 None"
| extended:
    "reach lim input st i j li \<Longrightarrow> j < i \<Longrightarrow>
     extension lim st i j li = Inr (Continued st' li') \<Longrightarrow>
     reach lim input st' i (j + 1) li'"
| phase_broken:
    "reach lim input st i j li \<Longrightarrow> j < i \<Longrightarrow>
     extension lim st i j li = Inr (Broke st') \<Longrightarrow>
     i < int (length (input_str st')) \<Longrightarrow>
     reach lim input (st'\<lparr>global_end_marker := increment (global_end_marker st')\<rparr>) (i + 1) j None"
| phase_done:
    "reach lim input st i j li \<Longrightarrow> \<not> j < i \<Longrightarrow>
     i < int (length (input_str st)) \<Longrightarrow>
     reach lim input (st\<lparr>global_end_marker := increment (global_end_marker st)\<rparr>) (i + 1) j None"

section \<open>What the specification asks for\<close>

text \<open>
  The suffix array of a terminated text \<open>T\<close>: a permutation of the positions
  \<open>0 .. length T - 1\<close> in which an earlier position starts a lexicographically smaller suffix.
\<close>

definition suffix_array_spec :: "str \<Rightarrow> int list \<Rightarrow> bool" where
  "suffix_array_spec T ids \<longleftrightarrow>
     sort ids = map int [0..<length T] \<and>
     sorted_wrt (\<lambda>p1 p2. drop (nat p1) T < drop (nat p2) T) ids"

text \<open>
  The walk of section 4.4(b) and the edge length of section 4.3 of the specification, written
  from its words: start at the node passed, take the child keyed by the next symbol, follow the
  whole edge while its length \<open>effectiveEnd - start + 1\<close> is less than the remaining length,
  where the effective end of a leaf is the value of the builder's end marker.
\<close>

definition effective_end :: "UkkonenSuffixTree \<Rightarrow> TrieNode \<Rightarrow> int option" where
  "effective_end st nd =
     (if is_terminal nd then Some (marker_value (global_end_marker st)) else end_idx nd)"

fun skip_count_walk :: "nat \<Rightarrow> UkkonenSuffixTree \<Rightarrow> ref \<Rightarrow> int \<Rightarrow> error + ref" where
  "skip_count_walk 0 st node remaining = Inl RecursionError"
| "skip_count_walk (Suc depth) st node remaining =
     (if remaining \<le> 0 then Inr node
      else
        (case py_get (input_str st) (marker_value (global_end_marker st) - remaining) of
           Inl e \<Rightarrow> Inl e
         | Inr c \<Rightarrow>
             (case get_child_at (heap st ! node) (int c - 36) of
                Inl e \<Rightarrow> Inl e
              | Inr None \<Rightarrow> Inr node
              | Inr (Some child) \<Rightarrow>
                  (case effective_end st (heap st ! child) of
                     None \<Rightarrow> Inl TypeError
                   | Some e \<Rightarrow>
                       (case start_idx (heap st ! child) of
                          None \<Rightarrow> Inl TypeError
                        | Some s \<Rightarrow>
                            (if e - s + 1 < remaining
                             then skip_count_walk depth st child (remaining - (e - s + 1))
                             else Inr node))))))"

section \<open>Invariants of the construction\<close>

text \<open>
  The builder's view of the root: the root is object 0 and is the active node, its suffix link
  points to itself, and \<^verbatim>\<open>last_internal_node\<close> is never the root.
\<close>

definition root_inv :: "UkkonenSuffixTree \<Rightarrow> ref option \<Rightarrow> bool" where
  "root_inv st li \<longleftrightarrow>
     root st = 0 \<and> active_node st = Some 0 \<and> heap st \<noteq> [] \<and>
     suffix_link (heap st ! 0) = Some 0 \<and> li \<noteq> Some 0"

text \<open>
  The slot of a 91-entry child table that the index \<^verbatim>\<open>ord(c) - 36\<close> selects when it is
  in range (\<open>c \<le> 126\<close>): a negative index counts from the end of the list.
\<close>

definition slot_of :: "nat \<Rightarrow> nat" where
  "slot_of c = (if 36 \<le> c then c - 36 else c + 55)"

text \<open>\<open>child st n k m\<close>: slot \<open>k\<close> of the child table of node \<open>n\<close> holds node \<open>m\<close>.\<close>

definition child :: "UkkonenSuffixTree \<Rightarrow> ref \<Rightarrow> nat \<Rightarrow> ref \<Rightarrow> bool" where
  "child st n k m \<longleftrightarrow>
     n < length (heap st) \<and> k < length (children (heap st ! n)) \<and>
     children (heap st ! n) ! k = Some m"

text \<open>
  The store is well formed: the root is object 0 and is not a leaf, every child table has 91
  slots, and every child is an object of the store other than the root.
\<close>

definition store_ok :: "UkkonenSuffixTree \<Rightarrow> bool" where
  "store_ok st \<longleftrightarrow>
     root st = 0 \<and> heap st \<noteq> [] \<and> \<not> is_terminal (heap st ! 0) \<and>
     (\<forall>n<length (heap st). length (children (heap st ! n)) = 91) \<and>
     (\<forall>n k m. child st n k m \<longrightarrow> 0 < m \<and> m < length (heap st))"

text \<open>
  Every child's edge starts at a position of the text whose symbol is in range and encodes to
  the slot the child occupies.
\<close>

definition slots_ok :: "UkkonenSuffixTree \<Rightarrow> bool" where
  "slots_ok st \<longleftrightarrow>
     (\<forall>n k m. child st n k m \<longrightarrow>
        (\<exists>s. start_idx (heap st ! m) = Some s \<and> 0 \<le> s \<and> s < int (length (input_str st)) \<and>
             input_str st ! nat s \<le> 126 \<and> slot_of (input_str st ! nat s) = k))"

text \<open>A child of the root is referenced from exactly one slot of one child table.\<close>

definition unshared :: "UkkonenSuffixTree \<Rightarrow> bool" where
  "unshared st \<longleftrightarrow> (\<forall>n k k' m. child st n k m \<and> child st 0 k' m \<longrightarrow> n = 0 \<and> k = k')"

text \<open>
  Edges below the root start before position \<open>j\<close>, and every leaf carries the number of
  an extension already made.
\<close>

definition root_starts :: "UkkonenSuffixTree \<Rightarrow> int \<Rightarrow> bool" where
  "root_starts st j \<longleftrightarrow>
     (\<forall>k m. child st 0 k m \<longrightarrow> (\<exists>s. start_idx (heap st ! m) = Some s \<and> s < j))"

definition leaves_ok :: "UkkonenSuffixTree \<Rightarrow> int \<Rightarrow> bool" where
  "leaves_ok st j \<longleftrightarrow>
     (\<forall>n<length (heap st). is_terminal (heap st ! n) \<longrightarrow>
        0 \<le> node_id (heap st ! n) \<and> node_id (heap st ! n) < j)"

definition tree_inv :: "UkkonenSuffixTree \<Rightarrow> int \<Rightarrow> bool" where
  "tree_inv st j \<longleftrightarrow>
     store_ok st \<and> slots_ok st \<and> unshared st \<and> root_starts st j \<and> leaves_ok st j"

section \<open>Runs on concrete texts\<close>

text \<open>
  C5. For the text \<^verbatim>\<open>banana\<close> the rank mapping sends position 0 to rank 5 and position 5
  to rank 2; the caller's 1-based queries 1 and 6 return these ranks.
\<close>

theorem banana_ranks:
  "rank_mapping 1000 (ords ''banana'') =
     Inr [(0, 5), (1, 4), (2, 7), (3, 3), (4, 6), (5, 2), (6, 1)] \<and>
   main 1000 (ords ''banana'') [1, 6] = Inr [5, 2]"
  by code_simp

text \<open>
  C1. For the text \<^verbatim>\<open>abaab\<close> the constructor returns the leaf order 5, 3, 2, 0, 4, 1:
  position 3 (\<^verbatim>\<open>ab$\<close>) comes before position 2 (\<^verbatim>\<open>aab$\<close>), so the order is not
  the lexicographic order of the suffixes. For \<^verbatim>\<open>mississippi\<close> it returns
  11, 10, 7, 4, 1, 0, 9, 8, 5, 3, 2, 6, where the comment at line 167 of the source expects
  11, 10, 7, 4, 1, 0, 9, 8, 6, 3, 5, 2.
\<close>

theorem abaab_not_sorted:
  "map_sum id suffix_ids (UkkonenSuffixTree_init 1000 (ords ''abaab'')) = Inr [5, 3, 2, 0, 4, 1] \<and>
   \<not> suffix_array_spec (ords ''abaab'' @ [dollar]) [5, 3, 2, 0, 4, 1] \<and>
   drop 2 (ords ''abaab'' @ [dollar]) < drop 3 (ords ''abaab'' @ [dollar]) \<and>
   map_sum id suffix_ids (UkkonenSuffixTree_init 1000 (ords ''mississippi'')) =
     Inr [11, 10, 7, 4, 1, 0, 9, 8, 5, 3, 2, 6] \<and>
   \<not> suffix_array_spec (ords ''mississippi'' @ [dollar]) [11, 10, 7, 4, 1, 0, 9, 8, 5, 3, 2, 6]"
  by code_simp

text \<open>
  C2. After the construction for the text \<^verbatim>\<open>a\<close> node 1 is the leaf of suffix 0 and the
  builder's end marker is 2, but \<^verbatim>\<open>end_index\<close> of the leaf is -1, the value of a newly
  constructed marker.
\<close>

theorem end_index_of_leaf_is_minus_one:
  "(case UkkonenSuffixTree_init 1000 (ords ''a'') of
      Inl e \<Rightarrow> False
    | Inr st \<Rightarrow>
        is_terminal (heap st ! 1) \<and> node_id (heap st ! 1) = 0 \<and>
        marker_value (global_end_marker st) = 2 \<and>
        end_index (heap st ! 1) = Some (- 1) \<and>
        effective_end st (heap st ! 1) = Some 2)"
  by code_simp

text \<open>
  C3. In the construction for \<^verbatim>\<open>abaab\<close>, phase 6 starts its extension \<open>j = 3\<close> with
  \<^verbatim>\<open>active_length\<close> 3. Node 3 is the internal node below the root's \<^verbatim>\<open>a\<close> slot and node 2
  the leaf below the root's \<^verbatim>\<open>b\<close> slot. The specified walk from the root ends at node 3;
  \<^verbatim>\<open>traverse_path\<close> steps to node 3, looks the next symbol up at the root again and returns
  node 2.
\<close>

theorem traverse_path_restarts_at_active_node:
  "(case phases 1000 (initial_state (ords ''abaab'')) [0, 1, 2, 3, 4, 5] 0 of
      Inl e \<Rightarrow> False
    | Inr (st5, j) \<Rightarrow>
        (let st = st5\<lparr>global_end_marker := increment (global_end_marker st5),
                       active_length := 6 - j\<rparr>
         in j = 3 \<and> root st = 0 \<and>
            get_child_at (heap st ! 0) (of_char CHR ''a'' - 36) = Inr (Some 3) \<and>
            get_child_at (heap st ! 0) (of_char CHR ''b'' - 36) = Inr (Some 2) \<and>
            traverse_path 1000 st 0 3 = Inr 2 \<and>
            skip_count_walk 1000 st 0 3 = Inr 3))"
  by code_simp

section \<open>Lemmas about the store\<close>

lemma nth_upd: "(xs[k := x]) ! n = (if k = n \<and> k < length xs then x else xs ! n)"
  by (cases "k < length xs") (auto simp: list_update_beyond)

lemma TrieNode_init_simps [simp]:
  "node_id (TrieNode_init nid s e t) = nid"
  "start_idx (TrieNode_init nid s e t) = s"
  "end_idx (TrieNode_init nid s e t) = e"
  "is_terminal (TrieNode_init nid s e t) = t"
  "children (TrieNode_init nid s e t) = replicate 91 None"
  "suffix_link (TrieNode_init nid s e t) = None"
  by (simp_all add: TrieNode_init_def)

lemma add_child_Inr:
  "add_child nd cp m = Inr nd' \<Longrightarrow>
   \<exists>cs. nd' = nd\<lparr>children := cs\<rparr> \<and> length cs = length (children nd)"
  by (auto simp: add_child_def py_set_def split: sum.splits if_splits)

lemma node_add_child_Inr:
  assumes "node_add_child st r cp m = Inr st'"
  shows "\<exists>cs. st' = st\<lparr>heap := (heap st)[r := (heap st ! r)\<lparr>children := cs\<rparr>]\<rparr> \<and>
              length cs = length (children (heap st ! r))"
  using assms add_child_Inr[of "heap st ! r" cp m]
  by (auto simp: node_add_child_def split: sum.splits)

lemma node_add_child_frame:
  assumes "node_add_child st r cp m = Inr st'"
  shows "input_str st' = input_str st" "root st' = root st" "active_node st' = active_node st"
    "active_length st' = active_length st" "global_end_marker st' = global_end_marker st"
    "suffix_ids st' = suffix_ids st" "length (heap st') = length (heap st)"
    "suffix_link (heap st' ! n) = suffix_link (heap st ! n)"
    "start_idx (heap st' ! n) = start_idx (heap st ! n)"
    "end_idx (heap st' ! n) = end_idx (heap st ! n)"
    "is_terminal (heap st' ! n) = is_terminal (heap st ! n)"
    "node_id (heap st' ! n) = node_id (heap st ! n)"
    "length (children (heap st' ! n)) = length (children (heap st ! n))"
  using node_add_child_Inr[OF assms] by (auto simp: nth_upd split: if_splits)

lemma set_start_idx_simps [simp]:
  "input_str (set_start_idx st r v) = input_str st"
  "root (set_start_idx st r v) = root st"
  "active_node (set_start_idx st r v) = active_node st"
  "active_length (set_start_idx st r v) = active_length st"
  "global_end_marker (set_start_idx st r v) = global_end_marker st"
  "suffix_ids (set_start_idx st r v) = suffix_ids st"
  "length (heap (set_start_idx st r v)) = length (heap st)"
  "suffix_link (heap (set_start_idx st r v) ! n) = suffix_link (heap st ! n)"
  "end_idx (heap (set_start_idx st r v) ! n) = end_idx (heap st ! n)"
  "is_terminal (heap (set_start_idx st r v) ! n) = is_terminal (heap st ! n)"
  "node_id (heap (set_start_idx st r v) ! n) = node_id (heap st ! n)"
  "children (heap (set_start_idx st r v) ! n) = children (heap st ! n)"
  "start_idx (heap (set_start_idx st r v) ! n) =
     (if n = r \<and> r < length (heap st) then v else start_idx (heap st ! n))"
  by (auto simp: set_start_idx_def nth_upd)

lemma set_suffix_link_simps [simp]:
  "input_str (set_suffix_link st r v) = input_str st"
  "root (set_suffix_link st r v) = root st"
  "active_node (set_suffix_link st r v) = active_node st"
  "active_length (set_suffix_link st r v) = active_length st"
  "global_end_marker (set_suffix_link st r v) = global_end_marker st"
  "suffix_ids (set_suffix_link st r v) = suffix_ids st"
  "length (heap (set_suffix_link st r v)) = length (heap st)"
  "start_idx (heap (set_suffix_link st r v) ! n) = start_idx (heap st ! n)"
  "end_idx (heap (set_suffix_link st r v) ! n) = end_idx (heap st ! n)"
  "is_terminal (heap (set_suffix_link st r v) ! n) = is_terminal (heap st ! n)"
  "node_id (heap (set_suffix_link st r v) ! n) = node_id (heap st ! n)"
  "children (heap (set_suffix_link st r v) ! n) = children (heap st ! n)"
  "suffix_link (heap (set_suffix_link st r v) ! n) =
     (if n = r \<and> r < length (heap st) then v else suffix_link (heap st ! n))"
  by (auto simp: set_suffix_link_def nth_upd)

text \<open>The steps of a successful edge split, one state after the other.\<close>

lemma split_edge_steps:
  assumes "split_edge st an ae cp i j li = Inr (st', ni)"
  obtains c_last s st2 s2 s3 c_edge st4 c_new st6 where
    "py_get (input_str st) (i - 1) = Inr c_last"
    "start_idx (heap st ! ae) = Some s"
    "ni = length (heap st)"
    "node_add_child
       (st\<lparr>heap := heap st @ [TrieNode_init (int c_last) (Some s) (Some (s + active_length st - 1)) False]\<rparr>)
       an cp ni = Inr st2"
    "start_idx (heap st2 ! ae) = Some s2"
    "start_idx (heap (set_start_idx st2 ae (Some (s2 + (active_length st2 - 1)))) ! ae) = Some s3"
    "py_get (input_str st2) s3 = Inr c_edge"
    "node_add_child (set_start_idx st2 ae (Some (s2 + (active_length st2 - 1)))) ni (int c_edge - 36) ae
       = Inr st4"
    "py_get (input_str st4) (i - 1) = Inr c_new"
    "node_add_child
       (st4\<lparr>heap := heap st4 @ [TrieNode_init j (Some (i - 1))
                                   (Some (marker_value (global_end_marker st4))) True]\<rparr>)
       ni (int c_new - 36) (length (heap st4)) = Inr st6"
    "st' = (case li of
              None \<Rightarrow> set_suffix_link st6 ni (Some (root st6))
            | Some k \<Rightarrow> set_suffix_link (set_suffix_link st6 ni (Some (root st6))) k (Some ni))"
  using assms
  by (auto simp: split_edge_def new_node_def split: sum.splits option.splits)


lemma new_leaf_below_steps:
  assumes "new_leaf_below st an cp i j = Inr st'"
  shows "node_add_child
           (st\<lparr>heap := heap st @ [TrieNode_init j (Some (i - active_length st))
                                     (Some (marker_value (global_end_marker st))) True]\<rparr>)
           an cp (length (heap st)) = Inr st'"
  using assms by (simp add: new_leaf_below_def new_node_def)

lemma new_leaf_below_frame:
  assumes "new_leaf_below st an cp i j = Inr st'"
  shows "input_str st' = input_str st" "root st' = root st" "active_node st' = active_node st"
    "active_length st' = active_length st" "global_end_marker st' = global_end_marker st"
    "suffix_ids st' = suffix_ids st" "length (heap st') = Suc (length (heap st))"
  using node_add_child_frame[OF new_leaf_below_steps[OF assms]] by simp_all

lemma new_leaf_below_old:
  assumes "new_leaf_below st an cp i j = Inr st'" "n < length (heap st)"
  shows "suffix_link (heap st' ! n) = suffix_link (heap st ! n)"
    "start_idx (heap st' ! n) = start_idx (heap st ! n)"
    "end_idx (heap st' ! n) = end_idx (heap st ! n)"
    "is_terminal (heap st' ! n) = is_terminal (heap st ! n)"
    "node_id (heap st' ! n) = node_id (heap st ! n)"
  using node_add_child_frame(8-12)[OF new_leaf_below_steps[OF assms(1)], of n] assms(2)
  by (simp_all add: nth_append)

lemma split_edge_frame:
  assumes "split_edge st an ae cp i j li = Inr (st', ni)"
  shows "input_str st' = input_str st" "root st' = root st" "active_node st' = active_node st"
    "active_length st' = active_length st" "global_end_marker st' = global_end_marker st"
    "suffix_ids st' = suffix_ids st" "length (heap st') = length (heap st) + 2"
    "ni = length (heap st)"
proof -
  from assms obtain c_last s st2 s2 c_edge st4 c_new st6 where
    a2: "node_add_child
       (st\<lparr>heap := heap st @ [TrieNode_init (int c_last) (Some s) (Some (s + active_length st - 1)) False]\<rparr>)
       an cp ni = Inr st2"
    and a4: "node_add_child (set_start_idx st2 ae (Some (s2 + (active_length st2 - 1)))) ni (int c_edge - 36) ae
       = Inr st4"
    and a6: "node_add_child
       (st4\<lparr>heap := heap st4 @ [TrieNode_init j (Some (i - 1))
                                   (Some (marker_value (global_end_marker st4))) True]\<rparr>)
       ni (int c_new - 36) (length (heap st4)) = Inr st6"
    and st': "st' = (case li of
              None \<Rightarrow> set_suffix_link st6 ni (Some (root st6))
            | Some k \<Rightarrow> set_suffix_link (set_suffix_link st6 ni (Some (root st6))) k (Some ni))"
    and ni: "ni = length (heap st)"
    by (rule split_edge_steps)
  note f2 = node_add_child_frame(1-7)[OF a2]
  note f4 = node_add_child_frame(1-7)[OF a4]
  note f6 = node_add_child_frame(1-7)[OF a6]
  show "input_str st' = input_str st" "root st' = root st" "active_node st' = active_node st"
    "active_length st' = active_length st" "global_end_marker st' = global_end_marker st"
    "suffix_ids st' = suffix_ids st" "length (heap st') = length (heap st) + 2"
    "ni = length (heap st)"
    using f2 f4 f6 ni by (auto simp: st' split: option.splits)
qed

lemma split_edge_old:
  assumes "split_edge st an ae cp i j li = Inr (st', ni)" "n < length (heap st)"
  shows "end_idx (heap st' ! n) = end_idx (heap st ! n)"
    "is_terminal (heap st' ! n) = is_terminal (heap st ! n)"
    "node_id (heap st' ! n) = node_id (heap st ! n)"
    "li \<noteq> Some n \<Longrightarrow> suffix_link (heap st' ! n) = suffix_link (heap st ! n)"
proof -
  from assms(1) obtain c_last s st2 s2 c_edge st4 c_new st6 where
    a2: "node_add_child
       (st\<lparr>heap := heap st @ [TrieNode_init (int c_last) (Some s) (Some (s + active_length st - 1)) False]\<rparr>)
       an cp ni = Inr st2"
    and a4: "node_add_child (set_start_idx st2 ae (Some (s2 + (active_length st2 - 1)))) ni (int c_edge - 36) ae
       = Inr st4"
    and a6: "node_add_child
       (st4\<lparr>heap := heap st4 @ [TrieNode_init j (Some (i - 1))
                                   (Some (marker_value (global_end_marker st4))) True]\<rparr>)
       ni (int c_new - 36) (length (heap st4)) = Inr st6"
    and st': "st' = (case li of
              None \<Rightarrow> set_suffix_link st6 ni (Some (root st6))
            | Some k \<Rightarrow> set_suffix_link (set_suffix_link st6 ni (Some (root st6))) k (Some ni))"
    and ni: "ni = length (heap st)"
    by (rule split_edge_steps)
  note f2 = node_add_child_frame(7)[OF a2] node_add_child_frame(8-12)[OF a2, of n]
  note f4 = node_add_child_frame(7)[OF a4] node_add_child_frame(8-12)[OF a4, of n]
  note f6 = node_add_child_frame(7)[OF a6] node_add_child_frame(8-12)[OF a6, of n]
  have n4: "n < length (heap st4)" using assms(2) f2 f4 by simp
  show "end_idx (heap st' ! n) = end_idx (heap st ! n)"
    "is_terminal (heap st' ! n) = is_terminal (heap st ! n)"
    "node_id (heap st' ! n) = node_id (heap st ! n)"
    using f2 f4 f6 ni assms(2) n4 by (auto simp: st' nth_append split: option.splits)
  show "suffix_link (heap st' ! n) = suffix_link (heap st ! n)" if "li \<noteq> Some n"
    using f2 f4 f6 ni assms(2) n4 that by (auto simp: st' nth_append split: option.splits)
qed

section \<open>Lemmas about extensions, phases and the points of the construction\<close>

lemma follow_suffix_link_simps [simp]:
  "input_str (follow_suffix_link st an) = input_str st"
  "root (follow_suffix_link st an) = root st"
  "heap (follow_suffix_link st an) = heap st"
  "active_node (follow_suffix_link st an) = suffix_link (heap st ! an)"
  "active_length (follow_suffix_link st an) = active_length st + 1"
  "global_end_marker (follow_suffix_link st an) = global_end_marker st"
  "suffix_ids (follow_suffix_link st an) = suffix_ids st"
  by (simp_all add: follow_suffix_link_def)

text \<open>The three ways an iteration of the while loop can end without an exception.\<close>

lemma extension_cases:
  assumes "extension lim st0 i j li = Inr r"
  obtains
    (no_node) st an c st' where
      "st = (if active_node st0 = Some (root st0) then st0\<lparr>active_length := i - j\<rparr> else st0)"
      "active_node st = Some an"
      "py_get (input_str st) (i - active_length st) = Inr c"
      "get_child_at (heap st ! an) (int c - 36) = Inr None"
      "new_leaf_below st an (int c - 36) i j = Inr st'"
      "r = Continued (follow_suffix_link st' an) li"
  | (split) st an c ae c_last s c_edge st' ni where
      "st = (if active_node st0 = Some (root st0) then st0\<lparr>active_length := i - j\<rparr> else st0)"
      "active_node st = Some an"
      "py_get (input_str st) (i - active_length st) = Inr c"
      "get_child_at (heap st ! an) (int c - 36) = Inr (Some ae)"
      "py_get (input_str st) (i - 1) = Inr c_last"
      "start_idx (heap st ! ae) = Some s"
      "py_get (input_str st) (s + active_length st - 1) = Inr c_edge"
      "c_last \<noteq> c_edge"
      "split_edge st an ae (int c - 36) i j li = Inr (st', ni)"
      "r = Continued (follow_suffix_link st' an) (Some ni)"
  | (stop) st an c ae c_last s where
      "st = (if active_node st0 = Some (root st0) then st0\<lparr>active_length := i - j\<rparr> else st0)"
      "active_node st = Some an"
      "py_get (input_str st) (i - active_length st) = Inr c"
      "get_child_at (heap st ! an) (int c - 36) = Inr (Some ae)"
      "py_get (input_str st) (i - 1) = Inr c_last"
      "start_idx (heap st ! ae) = Some s"
      "py_get (input_str st) (s + active_length st - 1) = Inr c_last"
      "r = Broke st"
  using assms unfolding extension_def
  by (auto split: sum.splits option.splits if_splits prod.splits)

lemma extension_root_inv:
  assumes "extension lim st i j li = Inr r" "root_inv st li"
  shows "case r of Broke st' \<Rightarrow> st' = st\<lparr>active_length := i - j\<rparr> \<and> root_inv st' li
         | Continued st' li' \<Rightarrow> root_inv st' li' \<and> active_length st' = i - j + 1"
  using assms(1)
proof (cases rule: extension_cases)
  case (no_node st1 an c st')
  from assms(2) no_node(1,2) have an: "an = 0" and st1: "st1 = st\<lparr>active_length := i - j\<rparr>"
    by (auto simp: root_inv_def)
  from assms(2) have ne: "0 < length (heap st1)" by (simp add: st1 root_inv_def)
  show ?thesis
    using assms(2) new_leaf_below_frame[OF no_node(5)] new_leaf_below_old(1)[OF no_node(5) ne]
    by (auto simp: no_node(6) an st1 root_inv_def)
next
  case (split st1 an c ae c_last s c_edge st' ni)
  from assms(2) split(1,2) have an: "an = 0" and st1: "st1 = st\<lparr>active_length := i - j\<rparr>"
    by (auto simp: root_inv_def)
  from assms(2) have ne: "0 < length (heap st1)" by (simp add: st1 root_inv_def)
  from assms(2) have li: "li \<noteq> Some 0" by (simp add: root_inv_def)
  show ?thesis
    using assms(2) split_edge_frame[OF split(9)] split_edge_old(4)[OF split(9) ne li] ne
    by (auto simp: split(10) an st1 root_inv_def)
next
  case (stop st1 an c ae c_last s)
  from assms(2) stop(1,2) have st1: "st1 = st\<lparr>active_length := i - j\<rparr>"
    by (auto simp: root_inv_def)
  show ?thesis using assms(2) by (auto simp: stop(8) st1 root_inv_def)
qed

lemma reach_root_inv: "reach lim input st i j li \<Longrightarrow> root_inv st li"
proof (induction rule: reach.induct)
  case first_phase
  show ?case by (simp add: root_inv_def initial_state_def)
next
  case (extended st i j li st' li')
  from extension_root_inv[OF extended(3) extended(4)] show ?case by simp
next
  case (phase_broken st i j li st')
  from extension_root_inv[OF phase_broken(3) phase_broken(5)] have "root_inv st' li" by auto
  then show ?case by (simp add: root_inv_def)
next
  case (phase_done st i j li)
  then show ?case by (simp add: root_inv_def)
qed

lemma extension_frame:
  assumes "extension lim st i j li = Inr r"
  shows "case r of
           Broke st' \<Rightarrow> input_str st' = input_str st \<and> root st' = root st \<and>
             global_end_marker st' = global_end_marker st \<and> suffix_ids st' = suffix_ids st \<and>
             heap st' = heap st
         | Continued st' li' \<Rightarrow> input_str st' = input_str st \<and> root st' = root st \<and>
             global_end_marker st' = global_end_marker st \<and> suffix_ids st' = suffix_ids st"
  using assms
proof (cases rule: extension_cases)
  case (no_node st1 an c st')
  then show ?thesis using new_leaf_below_frame[OF no_node(5)] by (auto split: if_splits)
next
  case (split st1 an c ae c_last s c_edge st' ni)
  then show ?thesis using split_edge_frame[OF split(9)] by (auto split: if_splits)
next
  case (stop st1 an c ae c_last s)
  then show ?thesis by (auto split: if_splits)
qed

lemma extensions_frame:
  "extensions lim st i j li = Inr (st', j') \<Longrightarrow>
   input_str st' = input_str st \<and> root st' = root st \<and>
   global_end_marker st' = global_end_marker st \<and> suffix_ids st' = suffix_ids st \<and>
   j \<le> j' \<and> (j \<le> i \<longrightarrow> j' \<le> i)"
proof (induction lim st i j li arbitrary: st' j' rule: extensions.induct)
  case (1 lim st i j li)
  show ?case
  proof (cases "j < i")
    case False
    with "1.prems" show ?thesis by simp
  next
    case True
    with "1.prems" obtain r where r: "extension lim st i j li = Inr r"
      by (auto split: sum.splits)
    show ?thesis
    proof (cases r)
      case (Broke s1)
      with "1.prems" True r extension_frame[OF r] show ?thesis by simp
    next
      case (Continued s1 l1)
      with "1.prems" True r have e: "extensions lim s1 i (j + 1) l1 = Inr (st', j')" by simp
      from "1.IH"[OF True r Continued e] extension_frame[OF r] Continued True
      show ?thesis by simp
    qed
  qed
qed

lemma extensions_reach:
  "reach lim input st i j li \<Longrightarrow> extensions lim st i j li = Inr (st', j') \<Longrightarrow>
   i < int (length (input_str st')) \<Longrightarrow>
   reach lim input (st'\<lparr>global_end_marker := increment (global_end_marker st')\<rparr>) (i + 1) j' None"
proof (induction lim st i j li arbitrary: st' j' rule: extensions.induct)
  case (1 lim st i j li)
  show ?case
  proof (cases "j < i")
    case False
    with "1.prems" show ?thesis by (auto intro: reach.phase_done)
  next
    case True
    with "1.prems" obtain r where r: "extension lim st i j li = Inr r"
      by (auto split: sum.splits)
    show ?thesis
    proof (cases r)
      case (Broke s1)
      with "1.prems" True r show ?thesis by (auto intro: reach.phase_broken)
    next
      case (Continued s1 l1)
      with "1.prems" True r have e: "extensions lim s1 i (j + 1) l1 = Inr (st', j')" by simp
      have "reach lim input s1 i (j + 1) l1"
        using "1.prems"(1) True r Continued by (auto intro: reach.extended)
      from "1.IH"[OF True r Continued this e "1.prems"(3)] show ?thesis .
    qed
  qed
qed

lemma phases_frame:
  "phases lim st is j = Inr (st', j') \<Longrightarrow>
   input_str st' = input_str st \<and> root st' = root st \<and> suffix_ids st' = suffix_ids st \<and>
   marker_value (global_end_marker st') = marker_value (global_end_marker st) + int (length is)"
proof (induction "is" arbitrary: st j)
  case Nil
  then show ?case by simp
next
  case (Cons i rest)
  from Cons.prems obtain s1 j1 where
    e: "extensions lim (st\<lparr>global_end_marker := increment (global_end_marker st)\<rparr>) i j None = Inr (s1, j1)"
    and p: "phases lim s1 rest j1 = Inr (st', j')"
    by (auto split: sum.splits)
  from extensions_frame[OF e] Cons.IH[OF p] show ?case by (simp add: increment_def)
qed

lemma phases_reach:
  "phases lim st (map int [k..<m]) j = Inr (st', j') \<Longrightarrow> k < m \<Longrightarrow>
   m \<le> length (input_str st) \<Longrightarrow>
   reach lim input (st\<lparr>global_end_marker := increment (global_end_marker st)\<rparr>) (int k) j None \<Longrightarrow>
   reach lim input (st'\<lparr>global_end_marker := increment (global_end_marker st')\<rparr>) (int m) j' None"
proof (induction "m - k" arbitrary: k st j)
  case 0
  then show ?case by simp
next
  case (Suc d)
  from Suc.prems(2) have upt: "[k..<m] = k # [Suc k..<m]" by (simp add: upt_conv_Cons)
  from Suc.prems(1) upt obtain s1 j1 where
    e: "extensions lim (st\<lparr>global_end_marker := increment (global_end_marker st)\<rparr>) (int k) j None = Inr (s1, j1)"
    and p: "phases lim s1 (map int [Suc k..<m]) j1 = Inr (st', j')"
    by (auto split: sum.splits)
  from extensions_frame[OF e] have is1: "input_str s1 = input_str st" by simp
  have r1: "reach lim input (s1\<lparr>global_end_marker := increment (global_end_marker s1)\<rparr>) (int k + 1) j1 None"
    using extensions_reach[OF Suc.prems(4) e] Suc.prems(2,3) is1 by simp
  show ?case
  proof (cases "Suc k < m")
    case True
    have "d = m - Suc k" using Suc.hyps(2) by simp
    from Suc.hyps(1)[OF this p True] Suc.prems(3) is1 r1 show ?thesis
      by (simp add: add.commute)
  next
    case False
    with Suc.prems(2) have "m = Suc k" by simp
    with p r1 show ?thesis by (simp add: add.commute)
  qed
qed

lemma reach_bounds:
  "reach lim input st i j li \<Longrightarrow>
   input_str st = input @ [dollar] \<and> marker_value (global_end_marker st) = i \<and>
   0 \<le> j \<and> j \<le> i \<and> i \<le> int (length input) + 1"
proof (induction rule: reach.induct)
  case first_phase
  show ?case by (simp add: initial_state_def increment_def EndMarker_init_def)
next
  case (extended st i j li st' li')
  with extension_frame[OF extended(3)] show ?case by simp
next
  case (phase_broken st i j li st')
  with extension_frame[OF phase_broken(3)] show ?case by (simp add: increment_def)
next
  case (phase_done st i j li)
  then show ?case by (simp add: increment_def)
qed

text \<open>The state the construction returns is the outcome of the last phase, entered from a reachable point.\<close>

lemma phases_snoc:
  "phases lim st (xs @ [x]) j =
     (case phases lim st xs j of
        Inl e \<Rightarrow> Inl e
      | Inr (s1, j1) \<Rightarrow>
          extensions lim (s1\<lparr>global_end_marker := increment (global_end_marker s1)\<rparr>) x j1 None)"
  by (induction xs arbitrary: st j) (auto split: sum.splits)

lemma build_last_phase:
  assumes "build_suffix_tree lim (initial_state input) = Inr st"
  shows "\<exists>s0 j0 j'. reach lim input s0 (int (length input) + 1) j0 None \<and>
           extensions lim s0 (int (length input) + 1) j0 None = Inr (st, j')"
proof -
  define n where "n = length input + 1"
  have len: "length (input_str (initial_state input)) = n" by (simp add: initial_state_def n_def)
  have m: "map int [0..<n + 1] = map int [0..<n] @ [int n]" by simp
  from assms obtain j' where "phases lim (initial_state input) (map int [0..<n + 1]) 0 = Inr (st, j')"
    by (auto simp: build_suffix_tree_def len split: sum.splits)
  then have "phases lim (initial_state input) (map int [0..<n] @ [int n]) 0 = Inr (st, j')"
    by (simp only: m)
  then obtain s1 j1 where p1: "phases lim (initial_state input) (map int [0..<n]) 0 = Inr (s1, j1)"
    and e: "extensions lim (s1\<lparr>global_end_marker := increment (global_end_marker s1)\<rparr>) (int n) j1 None = Inr (st, j')"
    unfolding phases_snoc by (auto split: sum.splits simp del: extensions.simps)
  have "0 < n" by (simp add: n_def)
  from phases_reach[OF p1 this, of input] reach.first_phase[of lim input] len
  have "reach lim input (s1\<lparr>global_end_marker := increment (global_end_marker s1)\<rparr>) (int n) j1 None"
    by simp
  with e have "reach lim input (s1\<lparr>global_end_marker := increment (global_end_marker s1)\<rparr>) (int (length input) + 1) j1 None \<and>
     extensions lim (s1\<lparr>global_end_marker := increment (global_end_marker s1)\<rparr>) (int (length input) + 1) j1 None = Inr (st, j')"
    by (simp add: n_def add.commute del: extensions.simps)
  then show ?thesis by blast
qed

section \<open>The active node and the end marker\<close>

text \<open>A reachable point with work to do: phase 1 of the construction for \<open>ab\<close>, before extension 0.\<close>

lemma reach_phase1_ab:
  "\<exists>st. reach 1000 (ords ''ab'') st 1 0 None \<and>
        (\<exists>st' li'. extension 1000 st 1 0 None = Inr (Continued st' li'))"
proof -
  let ?s0 = "(initial_state (ords ''ab''))\<lparr>global_end_marker := increment (global_end_marker (initial_state (ords ''ab'')))\<rparr>"
  let ?s1 = "?s0\<lparr>global_end_marker := increment (global_end_marker ?s0)\<rparr>"
  have r0: "reach 1000 (ords ''ab'') ?s0 0 0 None" by (rule reach.first_phase)
  have "(0::int) < int (length (input_str ?s0))" by (simp add: initial_state_def)
  with r0 have r1: "reach 1000 (ords ''ab'') ?s1 (0 + 1) 0 None"
    by (intro reach.phase_done) simp_all
  have "case extension 1000 ?s1 1 0 None of Inr (Continued st' li') \<Rightarrow> True | _ \<Rightarrow> False"
    by code_simp
  then have "\<exists>st' li'. extension 1000 ?s1 1 0 None = Inr (Continued st' li')"
    by (auto split: sum.splits flow.splits)
  with r1 show ?thesis by auto
qed

text \<open>
  C10. At every test of the while loop the active node is the root and the root's suffix link
  is the root; an extension therefore runs as from \<^verbatim>\<open>active_length = i - j\<close>, and an
  extension that does not break leaves \<^verbatim>\<open>active_node\<close> equal to the suffix link of the
  root, which is the root, with \<^verbatim>\<open>active_length = i - j + 1\<close>.
\<close>

theorem active_node_always_root:
  assumes "reach lim input st i j li"
  shows "active_node st = Some (root st) \<and>
         suffix_link (heap st ! root st) = Some (root st) \<and>
         extension lim st i j li = extension lim (st\<lparr>active_length := i - j\<rparr>) i j li \<and>
         (\<forall>st' li'. extension lim st i j li = Inr (Continued st' li') \<longrightarrow>
            active_node st' = suffix_link (heap st' ! root st) \<and>
            active_node st' = Some (root st') \<and> active_length st' = i - j + 1)"
proof -
  from reach_root_inv[OF assms] have ri: "root_inv st li" .
  then have a: "active_node st = Some (root st)" "suffix_link (heap st ! root st) = Some (root st)"
    by (simp_all add: root_inv_def)
  have b: "extension lim st i j li = extension lim (st\<lparr>active_length := i - j\<rparr>) i j li"
  proof -
    let ?s = "st\<lparr>active_length := i - j\<rparr>"
    have 1: "(if active_node st = Some (root st) then st\<lparr>active_length := i - j\<rparr> else st) = ?s"
      using a(1) by simp
    have 2: "(if active_node ?s = Some (root ?s) then ?s\<lparr>active_length := i - j\<rparr> else ?s) = ?s"
      by simp
    show ?thesis unfolding extension_def 1 2 ..
  qed
  have c: "active_node st' = suffix_link (heap st' ! root st) \<and>
           active_node st' = Some (root st') \<and> active_length st' = i - j + 1"
    if e: "extension lim st i j li = Inr (Continued st' li')" for st' li'
  proof -
    from extension_root_inv[OF e ri] have "root_inv st' li'" "active_length st' = i - j + 1"
      by simp_all
    with ri show ?thesis by (simp add: root_inv_def)
  qed
  from a b c show ?thesis by blast
qed

theorem active_node_always_root_witness:
  "\<exists>st st' li'. reach 1000 (ords ''ab'') st 1 0 None \<and>
      extension 1000 st 1 0 None = Inr (Continued st' li') \<and>
      active_node st = Some (root st) \<and> active_node st' = Some (root st') \<and>
      active_length st' = 2"
proof -
  from reach_phase1_ab obtain st st' li' where r: "reach 1000 (ords ''ab'') st 1 0 None"
    and e: "extension 1000 st 1 0 None = Inr (Continued st' li')" by blast
  from active_node_always_root[OF r] e
  have "active_node st = Some (root st) \<and> active_node st' = Some (root st') \<and> active_length st' = 2"
    by auto
  with r e show ?thesis by blast
qed

text \<open>
  C6, amended. The end marker starts at -1; at every test of the while loop in phase \<open>i\<close>
  it holds \<open>i\<close>, having been incremented once when the phase was entered; extensions do
  not change it; after the construction it holds \<open>n + 1\<close>, the length of the terminated
  text. In phase \<open>i\<close> the symbol being inserted is at index \<open>i - 1\<close>, so the marker is
  one past the index of the last symbol processed.
\<close>

theorem end_marker_is_phase_number:
  "marker_value (global_end_marker (initial_state input)) = - 1 \<and>
   (reach lim input st i j li \<longrightarrow>
      marker_value (global_end_marker st) = i \<and> 0 \<le> i \<and> i \<le> int (length input) + 1) \<and>
   (extension lim st i j li = Inr (Continued st' li') \<longrightarrow>
      global_end_marker st' = global_end_marker st) \<and>
   (build_suffix_tree lim (initial_state input) = Inr st'' \<longrightarrow>
      marker_value (global_end_marker st'') = int (length input) + 1)"
proof -
  have a: "marker_value (global_end_marker (initial_state input)) = - 1"
    by (simp add: initial_state_def EndMarker_init_def)
  have b: "marker_value (global_end_marker st) = i \<and> 0 \<le> i \<and> i \<le> int (length input) + 1"
    if "reach lim input st i j li"
    using reach_bounds[OF that] by simp
  have c: "global_end_marker st' = global_end_marker st"
    if "extension lim st i j li = Inr (Continued st' li')"
    using extension_frame[OF that] by simp
  have d: "marker_value (global_end_marker st'') = int (length input) + 1"
    if "build_suffix_tree lim (initial_state input) = Inr st''"
  proof -
    from build_last_phase[OF that] obtain s0 j0 j' where
      r: "reach lim input s0 (int (length input) + 1) j0 None"
      and e: "extensions lim s0 (int (length input) + 1) j0 None = Inr (st'', j')" by blast
    from reach_bounds[OF r] extensions_frame[OF e] show ?thesis by simp
  qed
  from a b c d show ?thesis by blast
qed

theorem end_marker_is_phase_number_witness:
  "\<exists>st st' li' st''. reach 1000 (ords ''ab'') st 1 0 None \<and>
      extension 1000 st 1 0 None = Inr (Continued st' li') \<and>
      build_suffix_tree 1000 (initial_state (ords ''ab'')) = Inr st'' \<and>
      marker_value (global_end_marker st) = 1 \<and> marker_value (global_end_marker st') = 1 \<and>
      marker_value (global_end_marker st'') = 3"
proof -
  from reach_phase1_ab obtain st st' li' where r: "reach 1000 (ords ''ab'') st 1 0 None"
    and e: "extension 1000 st 1 0 None = Inr (Continued st' li')" by blast
  have "case build_suffix_tree 1000 (initial_state (ords ''ab'')) of Inr s \<Rightarrow> True | Inl e \<Rightarrow> False"
    by code_simp
  then obtain st'' where b: "build_suffix_tree 1000 (initial_state (ords ''ab'')) = Inr st''"
    by (auto split: sum.splits)
  from end_marker_is_phase_number[of "ords ''ab''" 1000 st 1 0 None st' li' st''] r e b
  have "marker_value (global_end_marker st) = 1 \<and> marker_value (global_end_marker st') = 1 \<and>
      marker_value (global_end_marker st'') = 3"
    by (simp add: ords_def)
  with r e b show ?thesis by blast
qed

text \<open>
  C6 as stated fails: after the construction for \<^verbatim>\<open>ab\<close> the marker holds 3, while the
  last symbol of \<^verbatim>\<open>ab$\<close> has index 2.
\<close>

theorem end_marker_is_past_last_symbol:
  "map_sum id (\<lambda>st. (marker_value (global_end_marker st), int (length (input_str st)) - 1))
     (build_suffix_tree 1000 (initial_state (ords ''ab''))) = Inr (3, 2)"
  by code_simp

section \<open>Determinism\<close>

text \<open>The recursion allowance decides only whether a run completes, not what it returns.\<close>

lemma extension_lim:
  assumes "extension lim1 st i j li = Inr r1" "extension lim2 st i j li = Inr r2"
  shows "r1 = r2"
  using assms unfolding extension_def
  by (auto split: sum.splits option.splits if_splits prod.splits)

lemma extensions_lim:
  "extensions lim1 st i j li = Inr x1 \<Longrightarrow> extensions lim2 st i j li = Inr x2 \<Longrightarrow> x1 = x2"
proof (induction lim1 st i j li arbitrary: x1 x2 rule: extensions.induct)
  case (1 lim1 st i j li)
  show ?case
  proof (cases "j < i")
    case False
    with "1.prems" show ?thesis by simp
  next
    case True
    with "1.prems"(1) obtain r1 where r1: "extension lim1 st i j li = Inr r1"
      by (auto split: sum.splits)
    from True "1.prems"(2) obtain r2 where r2: "extension lim2 st i j li = Inr r2"
      by (auto split: sum.splits)
    from extension_lim[OF r1 r2] have eq: "r2 = r1" by simp
    show ?thesis
    proof (cases r1)
      case (Broke s1)
      with "1.prems" True r1 r2 eq show ?thesis by simp
    next
      case (Continued s1 l1)
      with "1.prems" True r1 r2 eq
      have e1: "extensions lim1 s1 i (j + 1) l1 = Inr x1"
        and e2: "extensions lim2 s1 i (j + 1) l1 = Inr x2" by simp_all
      from "1.IH"[OF True r1 Continued e1 e2] show ?thesis .
    qed
  qed
qed

lemma phases_lim:
  "phases lim1 st is j = Inr x1 \<Longrightarrow> phases lim2 st is j = Inr x2 \<Longrightarrow> x1 = x2"
proof (induction "is" arbitrary: st j)
  case Nil
  then show ?case by simp
next
  case (Cons i rest)
  let ?s = "st\<lparr>global_end_marker := increment (global_end_marker st)\<rparr>"
  from Cons.prems(1) obtain s1 j1 where e1: "extensions lim1 ?s i j None = Inr (s1, j1)"
    and p1: "phases lim1 s1 rest j1 = Inr x1" by (auto split: sum.splits simp del: extensions.simps)
  from Cons.prems(2) obtain s2 j2 where e2: "extensions lim2 ?s i j None = Inr (s2, j2)"
    and p2: "phases lim2 s2 rest j2 = Inr x2" by (auto split: sum.splits simp del: extensions.simps)
  from extensions_lim[OF e1 e2] p2 have "phases lim2 s1 rest j1 = Inr x2" by simp
  from Cons.IH[OF p1 this] show ?case .
qed

lemma build_suffix_tree_lim:
  "build_suffix_tree lim1 st = Inr s1 \<Longrightarrow> build_suffix_tree lim2 st = Inr s2 \<Longrightarrow> s1 = s2"
  by (auto simp: build_suffix_tree_def split: sum.splits dest: phases_lim)

lemma retrieve_lim:
  "retrieve_suffix_ids d1 st node = Inr s1 \<Longrightarrow> retrieve_suffix_ids d2 st node = Inr s2 \<Longrightarrow> s1 = s2"
  "retrieve_children d1 st cs = Inr s1 \<Longrightarrow> retrieve_children d2 st cs = Inr s2 \<Longrightarrow> s1 = s2"
proof (induction d1 st node and d1 st cs arbitrary: d2 s1 s2 and d2 s1 s2
    rule: retrieve_suffix_ids_retrieve_children.induct)
  case (1 st node)
  then show ?case by simp
next
  case (2 depth st)
  then show ?case by (cases d2) simp_all
next
  case (3 depth st n)
  from "3.prems"(2) obtain d2' where d2: "d2 = Suc d2'" by (cases d2) simp_all
  show ?case
  proof (cases "is_terminal (heap st ! n)")
    case True
    with "3.prems" d2 show ?thesis by simp
  next
    case False
    with "3.prems" d2 "3.IH"[OF False, of s1 d2' s2] show ?thesis by simp
  qed
next
  case (4 depth st)
  then show ?case by simp
next
  case (5 depth st rest)
  then show ?case by simp
next
  case (6 depth st child rest)
  from "6.prems"(1) obtain t1 where a1: "retrieve_suffix_ids depth st (Some child) = Inr t1"
    and b1: "retrieve_children depth t1 rest = Inr s1" by (auto split: sum.splits)
  from "6.prems"(2) obtain t2 where a2: "retrieve_suffix_ids d2 st (Some child) = Inr t2"
    and b2: "retrieve_children d2 t2 rest = Inr s2" by (auto split: sum.splits)
  from "6.IH"(1)[OF a1 a2] have "t2 = t1" by simp
  with b2 have "retrieve_children d2 t1 rest = Inr s2" by simp
  from "6.IH"(2)[OF a1 b1 this] show ?case .
qed

text \<open>
  C9. Two constructions from the same text that both complete yield the same rank mapping,
  whatever recursion allowance each run has; with the same allowance the two runs are the same
  computation, failures included.
\<close>

theorem rank_mapping_deterministic:
  assumes "rank_mapping lim1 input_string = Inr d1" "rank_mapping lim2 input_string = Inr d2"
  shows "d1 = d2"
proof -
  from assms(1) obtain u1 where u1: "UkkonenSuffixTree_init lim1 input_string = Inr u1"
    and d1: "d1 = sorted_dict_of (suffix_dict_of (suffix_ids u1))"
    by (auto simp: rank_mapping_def split: sum.splits)
  from assms(2) obtain u2 where u2: "UkkonenSuffixTree_init lim2 input_string = Inr u2"
    and d2: "d2 = sorted_dict_of (suffix_dict_of (suffix_ids u2))"
    by (auto simp: rank_mapping_def split: sum.splits)
  from u1 obtain b1 where b1: "build_suffix_tree lim1 (initial_state input_string) = Inr b1"
    and r1: "retrieve_suffix_ids lim1 b1 (Some (root b1)) = Inr u1"
    by (auto simp: UkkonenSuffixTree_init_def split: sum.splits)
  from u2 obtain b2 where b2: "build_suffix_tree lim2 (initial_state input_string) = Inr b2"
    and r2: "retrieve_suffix_ids lim2 b2 (Some (root b2)) = Inr u2"
    by (auto simp: UkkonenSuffixTree_init_def split: sum.splits)
  from build_suffix_tree_lim[OF b1 b2] r2 have "retrieve_suffix_ids lim2 b1 (Some (root b1)) = Inr u2"
    by simp
  from retrieve_lim(1)[OF r1 this] d1 d2 show ?thesis by simp
qed

theorem rank_mapping_deterministic_witness:
  "rank_mapping 1000 (ords ''banana'') = Inr [(0, 5), (1, 4), (2, 7), (3, 3), (4, 6), (5, 2), (6, 1)] \<and>
   rank_mapping 40 (ords ''banana'') = Inr [(0, 5), (1, 4), (2, 7), (3, 3), (4, 6), (5, 2), (6, 1)]"
proof -
  have a: "rank_mapping 1000 (ords ''banana'') = Inr [(0, 5), (1, 4), (2, 7), (3, 3), (4, 6), (5, 2), (6, 1)]"
    by code_simp
  have "case rank_mapping 40 (ords ''banana'') of Inr d \<Rightarrow> True | Inl e \<Rightarrow> False"
    by code_simp
  then obtain d where b: "rank_mapping 40 (ords ''banana'') = Inr d"
    by (auto split: sum.splits)
  from rank_mapping_deterministic[OF a b] a b show ?thesis by simp
qed

section \<open>The shape of the tree\<close>

lemma py_get_slot:
  "length xs = 91 \<Longrightarrow>
   py_get xs (int c - 36) = (if c \<le> 126 then Inr (xs ! slot_of c) else Inl IndexError)"
  by (auto simp: py_get_def slot_of_def nat_diff_distrib nat_add_distrib add.commute)

lemma py_set_slot:
  "length xs = 91 \<Longrightarrow>
   py_set xs (int c - 36) v = (if c \<le> 126 then Inr (xs[slot_of c := v]) else Inl IndexError)"
  by (auto simp: py_set_def slot_of_def nat_diff_distrib nat_add_distrib add.commute)

lemma slot_of_less: "c \<le> 126 \<Longrightarrow> slot_of c < 91"
  by (auto simp: slot_of_def)

lemma get_child_at_slot:
  "length (children nd) = 91 \<Longrightarrow>
   get_child_at nd (int c - 36) = (if c \<le> 126 then Inr (children nd ! slot_of c) else Inl IndexError)"
  by (simp add: get_child_at_def py_get_slot)

lemma py_get_nonneg:
  "py_get xs k = Inr x \<Longrightarrow> 0 \<le> k \<Longrightarrow> k < int (length xs) \<and> x = xs ! nat k"
  by (auto simp: py_get_def split: if_splits)

lemma node_add_child_slot:
  assumes "node_add_child st r (int c - 36) m = Inr st'" "length (children (heap st ! r)) = 91"
  shows "c \<le> 126"
    and "children (heap st' ! n) =
           (if n = r \<and> r < length (heap st) then (children (heap st ! r))[slot_of c := Some m]
            else children (heap st ! n))"
  using assms
  by (auto simp: node_add_child_def add_child_def py_set_slot nth_upd split: sum.splits if_splits)

lemma new_leaf_below_summary:
  assumes "new_leaf_below st 0 (int c - 36) i j = Inr st'"
    and "heap st \<noteq> []" "length (children (heap st ! 0)) = 91"
  shows "c \<le> 126"
    and "length (heap st') = Suc (length (heap st))"
    and "input_str st' = input_str st"
    and "root st' = root st"
    and "n < Suc (length (heap st)) \<Longrightarrow> children (heap st' ! n) =
           (if n = 0 then (children (heap st ! 0))[slot_of c := Some (length (heap st))]
            else if n = length (heap st) then replicate 91 None
            else children (heap st ! n))"
    and "n < Suc (length (heap st)) \<Longrightarrow> start_idx (heap st' ! n) =
           (if n = length (heap st) then Some (i - active_length st) else start_idx (heap st ! n))"
    and "n < Suc (length (heap st)) \<Longrightarrow> is_terminal (heap st' ! n) =
           (if n = length (heap st) then True else is_terminal (heap st ! n))"
    and "n < Suc (length (heap st)) \<Longrightarrow> node_id (heap st' ! n) =
           (if n = length (heap st) then j else node_id (heap st ! n))"
proof -
  let ?st1 = "st\<lparr>heap := heap st @ [TrieNode_init j (Some (i - active_length st))
                                     (Some (marker_value (global_end_marker st))) True]\<rparr>"
  note a = new_leaf_below_steps[OF assms(1)]
  have l: "length (children (heap ?st1 ! 0)) = 91" using assms(2,3) by (simp add: nth_append)
  note s = node_add_child_slot[OF a l]
  note f = node_add_child_frame[OF a]
  show "c \<le> 126" by (rule s(1))
  show "length (heap st') = Suc (length (heap st))" using f(7) by simp
  show "input_str st' = input_str st" using f(1) by simp
  show "root st' = root st" using f(2) by simp
  show "children (heap st' ! n) =
           (if n = 0 then (children (heap st ! 0))[slot_of c := Some (length (heap st))]
            else if n = length (heap st) then replicate 91 None
            else children (heap st ! n))" if "n < Suc (length (heap st))"
    using that assms(2) by (auto simp: s(2)[of n] nth_append)
  show "start_idx (heap st' ! n) =
           (if n = length (heap st) then Some (i - active_length st) else start_idx (heap st ! n))"
    if "n < Suc (length (heap st))"
    using that by (auto simp: f(9)[of n] nth_append)
  show "is_terminal (heap st' ! n) =
           (if n = length (heap st) then True else is_terminal (heap st ! n))"
    if "n < Suc (length (heap st))"
    using that by (auto simp: f(11)[of n] nth_append)
  show "node_id (heap st' ! n) =
           (if n = length (heap st) then j else node_id (heap st ! n))"
    if "n < Suc (length (heap st))"
    using that by (auto simp: f(12)[of n] nth_append)
qed

lemma split_edge_summary:
  assumes se: "split_edge st 0 ae (int c - 36) i j li = Inr (st', ni)"
    and ne: "heap st \<noteq> []" and l0: "length (children (heap st ! 0)) = 91"
    and ae: "0 < ae" "ae < length (heap st)"
    and s: "start_idx (heap st ! ae) = Some s"
  shows "\<exists>c_edge c_new.
      c \<le> 126 \<and> c_edge \<le> 126 \<and> c_new \<le> 126 \<and>
      py_get (input_str st) (s + (active_length st - 1)) = Inr c_edge \<and>
      py_get (input_str st) (i - 1) = Inr c_new \<and>
      ni = length (heap st) \<and>
      length (heap st') = length (heap st) + 2 \<and>
      input_str st' = input_str st \<and> root st' = root st \<and>
      (\<forall>n<length (heap st) + 2. children (heap st' ! n) =
           (if n = 0 then (children (heap st ! 0))[slot_of c := Some (length (heap st))]
            else if n = length (heap st)
              then (replicate 91 None)[slot_of c_edge := Some ae,
                                       slot_of c_new := Some (Suc (length (heap st)))]
            else if n = Suc (length (heap st)) then replicate 91 None
            else children (heap st ! n))) \<and>
      (\<forall>n<length (heap st) + 2. start_idx (heap st' ! n) =
           (if n = ae then Some (s + (active_length st - 1))
            else if n = length (heap st) then Some s
            else if n = Suc (length (heap st)) then Some (i - 1)
            else start_idx (heap st ! n))) \<and>
      (\<forall>n<length (heap st) + 2. is_terminal (heap st' ! n) =
           (if n = length (heap st) then False
            else if n = Suc (length (heap st)) then True
            else is_terminal (heap st ! n))) \<and>
      (\<forall>n<length (heap st) + 2. node_id (heap st' ! n) =
           (if n = length (heap st) then int c_new
            else if n = Suc (length (heap st)) then j
            else node_id (heap st ! n)))"
proof -
  let ?N = "length (heap st)"
  from se obtain c_last s0 st2 s2 s3 c_edge st4 c_new st6 where
    c_last: "py_get (input_str st) (i - 1) = Inr c_last"
    and s0: "start_idx (heap st ! ae) = Some s0"
    and ni: "ni = ?N"
    and a2: "node_add_child
       (st\<lparr>heap := heap st @ [TrieNode_init (int c_last) (Some s0) (Some (s0 + active_length st - 1)) False]\<rparr>)
       0 (int c - 36) ni = Inr st2"
    and s2: "start_idx (heap st2 ! ae) = Some s2"
    and s3: "start_idx (heap (set_start_idx st2 ae (Some (s2 + (active_length st2 - 1)))) ! ae) = Some s3"
    and c_edge: "py_get (input_str st2) s3 = Inr c_edge"
    and a4: "node_add_child (set_start_idx st2 ae (Some (s2 + (active_length st2 - 1)))) ni (int c_edge - 36) ae
       = Inr st4"
    and c_new: "py_get (input_str st4) (i - 1) = Inr c_new"
    and a6: "node_add_child
       (st4\<lparr>heap := heap st4 @ [TrieNode_init j (Some (i - 1))
                                   (Some (marker_value (global_end_marker st4))) True]\<rparr>)
       ni (int c_new - 36) (length (heap st4)) = Inr st6"
    and st': "st' = (case li of
              None \<Rightarrow> set_suffix_link st6 ni (Some (root st6))
            | Some k \<Rightarrow> set_suffix_link (set_suffix_link st6 ni (Some (root st6))) k (Some ni))"
    by (rule split_edge_steps)
  let ?st1 = "st\<lparr>heap := heap st @ [TrieNode_init (int c_last) (Some s0) (Some (s0 + active_length st - 1)) False]\<rparr>"
  let ?st3 = "set_start_idx st2 ae (Some (s2 + (active_length st2 - 1)))"
  let ?st5 = "st4\<lparr>heap := heap st4 @ [TrieNode_init j (Some (i - 1))
                                   (Some (marker_value (global_end_marker st4))) True]\<rparr>"
  have s0s: "s0 = s" using s0 s by simp
  note f2 = node_add_child_frame[OF a2]
  note f4 = node_add_child_frame[OF a4]
  note f6 = node_add_child_frame[OF a6]
  have len2: "length (heap st2) = Suc ?N" using f2(7) by simp
  have len4: "length (heap st4) = Suc ?N" using f4(7) len2 by simp
  have len6: "length (heap st6) = ?N + 2" using f6(7) len4 by simp
  have l1: "length (children (heap ?st1 ! 0)) = 91" using ne l0 by (simp add: nth_append)
  note k2 = node_add_child_slot[OF a2 l1]
  have ch2: "children (heap st2 ! n) =
      (if n = 0 then (children (heap st ! 0))[slot_of c := Some ?N]
       else if n = ?N then replicate 91 None else children (heap st ! n))" if "n < Suc ?N" for n
    using that ne by (auto simp: k2(2)[of n] ni nth_append)
  have l3: "length (children (heap ?st3 ! ni)) = 91"
    using ne by (simp add: ch2 ni)
  note k4 = node_add_child_slot[OF a4 l3]
  have ch4: "children (heap st4 ! n) =
      (if n = 0 then (children (heap st ! 0))[slot_of c := Some ?N]
       else if n = ?N then (replicate 91 None)[slot_of c_edge := Some ae]
       else children (heap st ! n))" if "n < Suc ?N" for n
    using that ne by (auto simp: k4(2)[of n] ni ch2 len2)
  have l5: "length (children (heap ?st5 ! ni)) = 91"
    using ne by (simp add: ni nth_append len4 ch4)
  note k6 = node_add_child_slot[OF a6 l5]
  have ch6: "children (heap st6 ! n) =
      (if n = 0 then (children (heap st ! 0))[slot_of c := Some ?N]
       else if n = ?N then (replicate 91 None)[slot_of c_edge := Some ae, slot_of c_new := Some (Suc ?N)]
       else if n = Suc ?N then replicate 91 None
       else children (heap st ! n))" if "n < ?N + 2" for n
    using that ne by (auto simp: k6(2)[of n] ni ch4 len4 nth_append)
  have ch': "children (heap st' ! n) = children (heap st6 ! n)" for n
    by (simp add: st' split: option.splits)
  have s2s: "s2 = s" using s2 f2(9)[of ae] ae s0 s by (simp add: nth_append)
  have al2: "active_length st2 = active_length st" using f2(4) by simp
  have s3s: "s3 = s + (active_length st - 1)" using s3 ae len2 s2s al2 by simp
  have in2: "input_str st2 = input_str st" using f2(1) by simp
  have in4: "input_str st4 = input_str st" using f4(1) in2 by simp
  have st2_start: "start_idx (heap st2 ! n) = (if n = ?N then Some s else start_idx (heap st ! n))"
    if "n < Suc ?N" for n
    using that s0s by (auto simp: f2(9)[of n] nth_append)
  have st4_start: "start_idx (heap st4 ! n) =
      (if n = ae then Some (s + (active_length st - 1))
       else if n = ?N then Some s else start_idx (heap st ! n))" if "n < Suc ?N" for n
    using that ae by (auto simp: f4(9)[of n] st2_start len2 s2s al2)
  have st6_start: "start_idx (heap st6 ! n) =
      (if n = ae then Some (s + (active_length st - 1))
       else if n = ?N then Some s
       else if n = Suc ?N then Some (i - 1) else start_idx (heap st ! n))" if "n < ?N + 2" for n
    using that ae by (auto simp: f6(9)[of n] st4_start len4 nth_append)
  have start': "start_idx (heap st' ! n) = start_idx (heap st6 ! n)" for n
    by (simp add: st' split: option.splits)
  have term6: "is_terminal (heap st6 ! n) =
      (if n = ?N then False else if n = Suc ?N then True else is_terminal (heap st ! n))"
    if "n < ?N + 2" for n
    using that by (auto simp: f6(11) f4(11) f2(11) len4 nth_append)
  have term': "is_terminal (heap st' ! n) = is_terminal (heap st6 ! n)" for n
    by (simp add: st' split: option.splits)
  have c_new_last: "c_new = c_last" using c_new c_last in4 by simp
  have id6: "node_id (heap st6 ! n) =
      (if n = ?N then int c_new else if n = Suc ?N then j else node_id (heap st ! n))"
    if "n < ?N + 2" for n
    using that c_new_last by (auto simp: f6(12) f4(12) f2(12) len4 nth_append)
  have id': "node_id (heap st' ! n) = node_id (heap st6 ! n)" for n
    by (simp add: st' split: option.splits)
  have len': "length (heap st') = ?N + 2" using len6 by (simp add: st' split: option.splits)
  have in': "input_str st' = input_str st" using f6(1) in4 by (simp add: st' split: option.splits)
  have root': "root st' = root st" using f6(2) f4(2) f2(2) by (simp add: st' split: option.splits)
  have e1: "py_get (input_str st) (s + (active_length st - 1)) = Inr c_edge"
    using c_edge in2 s3s by simp
  have e2: "py_get (input_str st) (i - 1) = Inr c_new" using c_new in4 by simp
  show ?thesis
    apply (rule exI[of _ c_edge], rule exI[of _ c_new])
    using k2(1) k4(1) k6(1) e1 e2 ni len' in' root'
    by (simp add: ch' ch6 start' st6_start term' term6 id' id6)
qed

lemma child_active_length [simp]: "child (st\<lparr>active_length := a\<rparr>) = child st"
  by (simp add: child_def fun_eq_iff)

lemma child_follow_suffix_link [simp]: "child (follow_suffix_link st an) = child st"
  by (simp add: child_def fun_eq_iff)

lemma child_marker [simp]: "child (st\<lparr>global_end_marker := g\<rparr>) = child st"
  by (simp add: child_def fun_eq_iff)

lemma tree_inv_active_length [simp]: "tree_inv (st\<lparr>active_length := a\<rparr>) j = tree_inv st j"
  by (simp add: tree_inv_def store_ok_def slots_ok_def unshared_def root_starts_def leaves_ok_def)

lemma tree_inv_follow_suffix_link [simp]: "tree_inv (follow_suffix_link st an) j = tree_inv st j"
  by (simp add: tree_inv_def store_ok_def slots_ok_def unshared_def root_starts_def leaves_ok_def)

lemma tree_inv_marker [simp]: "tree_inv (st\<lparr>global_end_marker := g\<rparr>) j = tree_inv st j"
  by (simp add: tree_inv_def store_ok_def slots_ok_def unshared_def root_starts_def leaves_ok_def)

lemma tree_inv_mono: "tree_inv st j \<Longrightarrow> j \<le> j' \<Longrightarrow> tree_inv st j'"
  by (fastforce simp: tree_inv_def root_starts_def leaves_ok_def)

text \<open>The children after a new leaf below the root, and after an edge split at the root.\<close>

lemma child_after_new_leaf:
  assumes ok: "store_ok st"
    and len: "length (heap st') = Suc (length (heap st))"
    and ch: "\<And>n. n < Suc (length (heap st)) \<Longrightarrow> children (heap st' ! n) =
           (if n = 0 then (children (heap st ! 0))[slot_of c := Some (length (heap st))]
            else if n = length (heap st) then replicate 91 None
            else children (heap st ! n))"
    and c: "c \<le> 126"
  shows "child st' n k m \<longleftrightarrow>
           (n = 0 \<and> k = slot_of c \<and> m = length (heap st)) \<or>
           (child st n k m \<and> \<not> (n = 0 \<and> k = slot_of c))"
proof -
  from ok have ne: "0 < length (heap st)" and l0: "length (children (heap st ! 0)) = 91"
    by (auto simp: store_ok_def)
  have sl: "slot_of c < 91" using c by (rule slot_of_less)
  consider "n = 0" | "n = length (heap st)" | "0 < n" "n < length (heap st)" | "Suc (length (heap st)) \<le> n"
    by linarith
  then show ?thesis
  proof cases
    case 1
    then show ?thesis using ne l0 sl by (auto simp: child_def len ch nth_list_update)
  next
    case 2
    then show ?thesis using ne by (auto simp: child_def len ch)
  next
    case 3
    then show ?thesis by (auto simp: child_def len ch)
  next
    case 4
    then show ?thesis by (auto simp: child_def len)
  qed
qed

lemma child_after_split:
  assumes ok: "store_ok st"
    and len: "length (heap st') = length (heap st) + 2"
    and ch: "\<forall>n<length (heap st) + 2. children (heap st' ! n) =
           (if n = 0 then (children (heap st ! 0))[slot_of c := Some (length (heap st))]
            else if n = length (heap st)
              then (replicate 91 None)[slot_of c_edge := Some ae,
                                       slot_of c_new := Some (Suc (length (heap st)))]
            else if n = Suc (length (heap st)) then replicate 91 None
            else children (heap st ! n))"
    and c: "c \<le> 126" "c_edge \<le> 126" "c_new \<le> 126"
  shows "child st' n k m \<longleftrightarrow>
           (n = 0 \<and> k = slot_of c \<and> m = length (heap st)) \<or>
           (n = length (heap st) \<and> k = slot_of c_new \<and> m = Suc (length (heap st))) \<or>
           (n = length (heap st) \<and> k = slot_of c_edge \<and> k \<noteq> slot_of c_new \<and> m = ae) \<or>
           (child st n k m \<and> \<not> (n = 0 \<and> k = slot_of c))"
proof -
  from ok have ne: "0 < length (heap st)" and l0: "length (children (heap st ! 0)) = 91"
    by (auto simp: store_ok_def)
  have sl: "slot_of c < 91" "slot_of c_edge < 91" "slot_of c_new < 91"
    using c by (auto intro: slot_of_less)
  consider "n = 0" | "n = length (heap st)" | "n = Suc (length (heap st))"
    | "0 < n" "n < length (heap st)" | "length (heap st) + 2 \<le> n"
    by linarith
  then show ?thesis
  proof cases
    case 1
    then show ?thesis using ne l0 sl ch by (auto simp: child_def len nth_list_update)
  next
    case 2
    then show ?thesis using ne sl ch by (auto simp: child_def len nth_list_update)
  next
    case 3
    then show ?thesis using ne ch by (auto simp: child_def len)
  next
    case 4
    then show ?thesis using ch by (auto simp: child_def len)
  next
    case 5
    then show ?thesis by (auto simp: child_def len)
  qed
qed

lemma tree_inv_new_leaf:
  assumes inv: "tree_inv st j"
    and len: "length (heap st') = Suc (length (heap st))"
    and inp: "input_str st' = input_str st" and rt: "root st' = root st"
    and ch: "\<And>n. n < Suc (length (heap st)) \<Longrightarrow> children (heap st' ! n) =
           (if n = 0 then (children (heap st ! 0))[slot_of c := Some (length (heap st))]
            else if n = length (heap st) then replicate 91 None
            else children (heap st ! n))"
    and st: "\<And>n. n < Suc (length (heap st)) \<Longrightarrow> start_idx (heap st' ! n) =
           (if n = length (heap st) then Some j else start_idx (heap st ! n))"
    and tm: "\<And>n. n < Suc (length (heap st)) \<Longrightarrow> is_terminal (heap st' ! n) =
           (if n = length (heap st) then True else is_terminal (heap st ! n))"
    and nid: "\<And>n. n < Suc (length (heap st)) \<Longrightarrow> node_id (heap st' ! n) =
           (if n = length (heap st) then j else node_id (heap st ! n))"
    and c: "c \<le> 126" and j: "0 \<le> j" "j < int (length (input_str st))"
    and cj: "input_str st ! nat j = c"
  shows "tree_inv st' (j + 1)"
proof -
  let ?N = "length (heap st)"
  from inv have ok: "store_ok st" and sl: "slots_ok st" and un: "unshared st"
    and rs: "root_starts st j" and lv: "leaves_ok st j"
    by (simp_all add: tree_inv_def)
  from ok have ne: "0 < ?N" and bound: "\<And>n k m. child st n k m \<Longrightarrow> 0 < m \<and> m < ?N"
    and l91: "\<And>n. n < ?N \<Longrightarrow> length (children (heap st ! n)) = 91"
    and r0: "root st = 0" and nt: "\<not> is_terminal (heap st ! 0)"
    by (auto simp: store_ok_def)
  note C = child_after_new_leaf[OF ok len ch c]
  have old_start: "start_idx (heap st' ! m) = start_idx (heap st ! m)" if "m < ?N" for m
    using that st[of m] by simp
  have new_start: "start_idx (heap st' ! ?N) = Some j" using st[of ?N] by simp
  have 1: "store_ok st'"
    unfolding store_ok_def
  proof (intro conjI allI impI)
    show "root st' = 0" using rt r0 by simp
    show "heap st' \<noteq> []" using len by auto
    show "\<not> is_terminal (heap st' ! 0)" using tm[of 0] ne nt by simp
    show "length (children (heap st' ! n)) = 91" if "n < length (heap st')" for n
      using that l91[of n] ne by (auto simp: len ch)
    show "0 < m" if "child st' n k m" for n k m
      using that bound ne by (auto simp: C)
    show "m < length (heap st')" if "child st' n k m" for n k m
      using that bound by (fastforce simp: C len)
  qed
  have 2: "slots_ok st'"
    unfolding slots_ok_def
  proof (intro allI impI)
    fix n k m assume "child st' n k m"
    then consider "n = 0" "k = slot_of c" "m = ?N" | "child st n k m"
      by (auto simp: C)
    then show "\<exists>s. start_idx (heap st' ! m) = Some s \<and> 0 \<le> s \<and> s < int (length (input_str st')) \<and>
             input_str st' ! nat s \<le> 126 \<and> slot_of (input_str st' ! nat s) = k"
    proof cases
      case 1
      then show ?thesis using new_start j cj c inp by simp
    next
      case 2
      with bound have "m < ?N" by blast
      with 2 sl show ?thesis by (simp add: slots_ok_def old_start inp)
    qed
  qed
  have 3: "unshared st'"
    unfolding unshared_def
  proof (intro allI impI)
    fix n k k' m assume a: "child st' n k m \<and> child st' 0 k' m"
    from a have "(k' = slot_of c \<and> m = ?N) \<or> (child st 0 k' m \<and> k' \<noteq> slot_of c)"
      by (auto simp: C)
    then show "n = 0 \<and> k = k'"
    proof
      assume b: "k' = slot_of c \<and> m = ?N"
      with a bound show ?thesis by (fastforce simp: C)
    next
      assume b: "child st 0 k' m \<and> k' \<noteq> slot_of c"
      with bound have "m < ?N" by blast
      with a have "child st n k m" by (auto simp: C)
      with b un show ?thesis by (auto simp: unshared_def)
    qed
  qed
  have 4: "root_starts st' (j + 1)"
    unfolding root_starts_def
  proof (intro allI impI)
    fix k m assume "child st' 0 k m"
    then consider "m = ?N" | "child st 0 k m" by (auto simp: C)
    then show "\<exists>s. start_idx (heap st' ! m) = Some s \<and> s < j + 1"
    proof cases
      case 1
      then show ?thesis using new_start by simp
    next
      case 2
      with bound have "m < ?N" by blast
      with 2 rs show ?thesis by (fastforce simp: root_starts_def old_start)
    qed
  qed
  have 5: "leaves_ok st' (j + 1)"
    unfolding leaves_ok_def
  proof (intro allI impI)
    fix n assume n: "n < length (heap st')" and t: "is_terminal (heap st' ! n)"
    show "0 \<le> node_id (heap st' ! n) \<and> node_id (heap st' ! n) < j + 1"
    proof (cases "n = ?N")
      case True
      then show ?thesis using nid[of n] j by simp
    next
      case False
      with n len have "n < ?N" by simp
      with t lv tm[of n] nid[of n] show ?thesis by (fastforce simp: leaves_ok_def)
    qed
  qed
  from 1 2 3 4 5 show ?thesis by (simp add: tree_inv_def)
qed

lemma tree_inv_split:
  assumes inv: "tree_inv st j"
    and len: "length (heap st') = length (heap st) + 2"
    and inp: "input_str st' = input_str st" and rt: "root st' = root st"
    and ch: "\<forall>n<length (heap st) + 2. children (heap st' ! n) =
           (if n = 0 then (children (heap st ! 0))[slot_of c := Some (length (heap st))]
            else if n = length (heap st)
              then (replicate 91 None)[slot_of c_edge := Some ae,
                                       slot_of c_new := Some (Suc (length (heap st)))]
            else if n = Suc (length (heap st)) then replicate 91 None
            else children (heap st ! n))"
    and st: "\<forall>n<length (heap st) + 2. start_idx (heap st' ! n) =
           (if n = ae then Some s'
            else if n = length (heap st) then Some s
            else if n = Suc (length (heap st)) then Some (i - 1)
            else start_idx (heap st ! n))"
    and tm: "\<forall>n<length (heap st) + 2. is_terminal (heap st' ! n) =
           (if n = length (heap st) then False
            else if n = Suc (length (heap st)) then True
            else is_terminal (heap st ! n))"
    and nid: "\<forall>n<length (heap st) + 2. node_id (heap st' ! n) =
           (if n = length (heap st) then nid_new
            else if n = Suc (length (heap st)) then j
            else node_id (heap st ! n))"
    and c: "c \<le> 126" "c_edge \<le> 126" "c_new \<le> 126"
    and j: "0 \<le> j"
    and old: "child st 0 (slot_of c) ae" "start_idx (heap st ! ae) = Some s"
    and s': "0 \<le> s'" "s' < int (length (input_str st))" "input_str st ! nat s' = c_edge"
    and i1: "0 \<le> i - 1" "i - 1 < int (length (input_str st))" "input_str st ! nat (i - 1) = c_new"
  shows "tree_inv st' (j + 1)"
proof -
  let ?N = "length (heap st)"
  from inv have ok: "store_ok st" and sl: "slots_ok st" and un: "unshared st"
    and rs: "root_starts st j" and lv: "leaves_ok st j"
    by (simp_all add: tree_inv_def)
  from ok have ne: "0 < ?N" and bound: "\<And>n k m. child st n k m \<Longrightarrow> 0 < m \<and> m < ?N"
    and l91: "\<And>n. n < ?N \<Longrightarrow> length (children (heap st ! n)) = 91"
    and r0: "root st = 0" and nt: "\<not> is_terminal (heap st ! 0)"
    by (auto simp: store_ok_def)
  note C = child_after_split[OF ok len ch c]
  from bound[OF old(1)] have ae: "0 < ae" "ae < ?N" by simp_all
  have only: "n = 0 \<and> k = slot_of c" if "child st n k ae" for n k
    using that old(1) un by (auto simp: unshared_def)
  have old_start: "start_idx (heap st' ! m) = start_idx (heap st ! m)" if "m < ?N" "m \<noteq> ae" for m
    using that st by simp
  have ae_start: "start_idx (heap st' ! ae) = Some s'" using st ae by simp
  have ni_start: "start_idx (heap st' ! ?N) = Some s" using st ae by simp
  have nl_start: "start_idx (heap st' ! Suc ?N) = Some (i - 1)" using st ae by simp
  from sl old have s: "0 \<le> s" "s < int (length (input_str st))" "input_str st ! nat s \<le> 126"
    "slot_of (input_str st ! nat s) = slot_of c"
    by (fastforce simp: slots_ok_def)+
  from rs old have sj: "s < j" by (fastforce simp: root_starts_def)
  have 1: "store_ok st'"
    unfolding store_ok_def
  proof (intro conjI allI impI)
    show "root st' = 0" using rt r0 by simp
    show "heap st' \<noteq> []" using len by auto
    show "\<not> is_terminal (heap st' ! 0)" using tm ne nt by simp
    show "length (children (heap st' ! n)) = 91" if "n < length (heap st')" for n
      using that l91[of n] ne ch by (auto simp: len)
    show "0 < m" if "child st' n k m" for n k m
      using that bound ne ae by (auto simp: C)
    show "m < length (heap st')" if "child st' n k m" for n k m
      using that bound ae by (fastforce simp: C len)
  qed
  have 2: "slots_ok st'"
    unfolding slots_ok_def
  proof (intro allI impI)
    fix n k m assume "child st' n k m"
    then consider "n = 0" "k = slot_of c" "m = ?N"
      | "k = slot_of c_new" "m = Suc ?N"
      | "k = slot_of c_edge" "m = ae"
      | "child st n k m" "\<not> (n = 0 \<and> k = slot_of c)"
      by (auto simp: C)
    then show "\<exists>s. start_idx (heap st' ! m) = Some s \<and> 0 \<le> s \<and> s < int (length (input_str st')) \<and>
             input_str st' ! nat s \<le> 126 \<and> slot_of (input_str st' ! nat s) = k"
    proof cases
      case 1
      then show ?thesis using ni_start s inp by simp
    next
      case 2
      then show ?thesis using nl_start i1 c inp by simp
    next
      case 3
      then show ?thesis using ae_start s' c inp by simp
    next
      case 4
      with bound have m: "m < ?N" by blast
      from 4 only have "m \<noteq> ae" by blast
      with 4 m sl show ?thesis by (simp add: slots_ok_def old_start inp)
    qed
  qed
  have 3: "unshared st'"
    unfolding unshared_def
  proof (intro allI impI)
    fix n k k' m assume a: "child st' n k m \<and> child st' 0 k' m"
    from a ne have "(k' = slot_of c \<and> m = ?N) \<or> (child st 0 k' m \<and> k' \<noteq> slot_of c)"
      by (auto simp: C)
    then show "n = 0 \<and> k = k'"
    proof
      assume b: "k' = slot_of c \<and> m = ?N"
      with a bound ae show ?thesis by (fastforce simp: C)
    next
      assume b: "child st 0 k' m \<and> k' \<noteq> slot_of c"
      with bound have m: "m < ?N" by blast
      from b only have "m \<noteq> ae" by blast
      with a m have "child st n k m" by (auto simp: C)
      with b un show ?thesis by (auto simp: unshared_def)
    qed
  qed
  have 4: "root_starts st' (j + 1)"
    unfolding root_starts_def
  proof (intro allI impI)
    fix k m assume "child st' 0 k m"
    with ne consider "m = ?N" | "child st 0 k m" "k \<noteq> slot_of c" by (auto simp: C)
    then show "\<exists>s. start_idx (heap st' ! m) = Some s \<and> s < j + 1"
    proof cases
      case 1
      then show ?thesis using ni_start sj by simp
    next
      case 2
      with bound have m: "m < ?N" by blast
      from 2 only have "m \<noteq> ae" by blast
      with 2 m rs show ?thesis by (fastforce simp: root_starts_def old_start)
    qed
  qed
  have 5: "leaves_ok st' (j + 1)"
    unfolding leaves_ok_def
  proof (intro allI impI)
    fix n assume n: "n < length (heap st')" and t: "is_terminal (heap st' ! n)"
    from n len consider "n = ?N" | "n = Suc ?N" | "n < ?N" by linarith
    then show "0 \<le> node_id (heap st' ! n) \<and> node_id (heap st' ! n) < j + 1"
    proof cases
      case 1
      with t tm show ?thesis by simp
    next
      case 2
      then show ?thesis using nid j by simp
    next
      case 3
      with t lv tm nid show ?thesis by (fastforce simp: leaves_ok_def)
    qed
  qed
  from 1 2 3 4 5 show ?thesis by (simp add: tree_inv_def)
qed

lemma child_of_root_lookup:
  assumes "store_ok st" "get_child_at (heap st ! 0) (int c - 36) = Inr x"
  shows "c \<le> 126" and "x = children (heap st ! 0) ! slot_of c"
    and "x = Some m \<Longrightarrow> child st 0 (slot_of c) m"
proof -
  from assms(1) have l: "length (children (heap st ! 0)) = 91" and ne: "0 < length (heap st)"
    by (auto simp: store_ok_def)
  from assms(2) show c: "c \<le> 126" and x: "x = children (heap st ! 0) ! slot_of c"
    by (auto simp: get_child_at_slot[OF l] split: if_splits)
  show "child st 0 (slot_of c) m" if "x = Some m"
    using that x l ne slot_of_less[OF c] by (simp add: child_def)
qed

lemma extension_tree_inv:
  assumes e: "extension lim st i j li = Inr r" and inv: "tree_inv st j"
    and ri: "root_inv st li" and j: "0 \<le> j" "j < i"
  shows "case r of Broke st' \<Rightarrow> tree_inv st' j | Continued st' li' \<Rightarrow> tree_inv st' (j + 1)"
  using e
proof (cases rule: extension_cases)
  case (no_node st1 an c st')
  from ri no_node(1,2) have an: "an = 0" and st1: "st1 = st\<lparr>active_length := i - j\<rparr>"
    by (auto simp: root_inv_def)
  from inv have inv1: "tree_inv st1 j" by (simp add: st1)
  then have ok1: "store_ok st1" by (simp add: tree_inv_def)
  then have ne: "heap st1 \<noteq> []" and l0: "length (children (heap st1 ! 0)) = 91"
    by (auto simp: store_ok_def)
  from no_node(3) have "py_get (input_str st1) j = Inr c" by (simp add: st1)
  from py_get_nonneg[OF this j(1)] have jl: "j < int (length (input_str st1))"
    and cj: "input_str st1 ! nat j = c" by simp_all
  from no_node(5) have nl: "new_leaf_below st1 0 (int c - 36) i j = Inr st'" by (simp add: an)
  note S = new_leaf_below_summary[OF nl ne l0]
  have al: "i - active_length st1 = j" by (simp add: st1)
  have st_new: "start_idx (heap st' ! n) =
      (if n = length (heap st1) then Some j else start_idx (heap st1 ! n))"
    if "n < Suc (length (heap st1))" for n
    using S(6)[OF that] al by simp
  have "tree_inv st' (j + 1)"
    by (rule tree_inv_new_leaf[OF inv1 S(2) S(3) S(4) S(5) st_new S(7) S(8) S(1) j(1) jl cj])
  then show ?thesis by (simp add: no_node(6))
next
  case (split st1 an c ae c_last s c_edge st' ni)
  from ri split(1,2) have an: "an = 0" and st1: "st1 = st\<lparr>active_length := i - j\<rparr>"
    by (auto simp: root_inv_def)
  from inv have inv1: "tree_inv st1 j" by (simp add: st1)
  then have ok1: "store_ok st1" and sl1: "slots_ok st1" by (simp_all add: tree_inv_def)
  then have ne: "heap st1 \<noteq> []" and l0: "length (children (heap st1 ! 0)) = 91"
    by (auto simp: store_ok_def)
  from split(4) have g: "get_child_at (heap st1 ! 0) (int c - 36) = Inr (Some ae)" by (simp add: an)
  from child_of_root_lookup(3)[OF ok1 g] have chd: "child st1 0 (slot_of c) ae" by simp
  with ok1 have ae: "0 < ae" "ae < length (heap st1)" by (auto simp: store_ok_def)
  from sl1 chd split(6) have s0: "0 \<le> s" by (fastforce simp: slots_ok_def)
  from split(9) have se: "split_edge st1 0 ae (int c - 36) i j li = Inr (st', ni)" by (simp add: an)
  from split_edge_summary[OF se ne l0 ae split(6)] obtain ce cn where
    c: "c \<le> 126" "ce \<le> 126" "cn \<le> 126"
    and pe: "py_get (input_str st1) (s + (active_length st1 - 1)) = Inr ce"
    and pn: "py_get (input_str st1) (i - 1) = Inr cn"
    and len: "length (heap st') = length (heap st1) + 2"
    and inp: "input_str st' = input_str st1" and rt: "root st' = root st1"
    and ch: "\<forall>n<length (heap st1) + 2. children (heap st' ! n) =
           (if n = 0 then (children (heap st1 ! 0))[slot_of c := Some (length (heap st1))]
            else if n = length (heap st1)
              then (replicate 91 None)[slot_of ce := Some ae,
                                       slot_of cn := Some (Suc (length (heap st1)))]
            else if n = Suc (length (heap st1)) then replicate 91 None
            else children (heap st1 ! n))"
    and st: "\<forall>n<length (heap st1) + 2. start_idx (heap st' ! n) =
           (if n = ae then Some (s + (active_length st1 - 1))
            else if n = length (heap st1) then Some s
            else if n = Suc (length (heap st1)) then Some (i - 1)
            else start_idx (heap st1 ! n))"
    and tm: "\<forall>n<length (heap st1) + 2. is_terminal (heap st' ! n) =
           (if n = length (heap st1) then False
            else if n = Suc (length (heap st1)) then True
            else is_terminal (heap st1 ! n))"
    and nid: "\<forall>n<length (heap st1) + 2. node_id (heap st' ! n) =
           (if n = length (heap st1) then int cn
            else if n = Suc (length (heap st1)) then j
            else node_id (heap st1 ! n))"
    by blast
  have al: "active_length st1 = i - j" by (simp add: st1)
  have s'0: "0 \<le> s + (active_length st1 - 1)" using s0 j al by simp
  note e1 = py_get_nonneg[OF pe s'0]
  have i0: "0 \<le> i - 1" using j by simp
  note e2 = py_get_nonneg[OF pn i0]
  have "tree_inv st' (j + 1)"
    by (rule tree_inv_split[OF inv1 len inp rt ch st tm nid c j(1) chd split(6) s'0 _ _ i0])
       (use e1 e2 in simp_all)
  then show ?thesis by (simp add: split(10))
next
  case (stop st1 an c ae c_last s)
  from ri stop(1) have st1: "st1 = st\<lparr>active_length := i - j\<rparr>"
    by (auto simp: root_inv_def)
  from inv show ?thesis by (simp add: stop(8) st1)
qed

lemma no_child_initial: "\<not> child (initial_state input) n k m"
  by (auto simp: child_def initial_state_def)

lemma tree_inv_initial: "tree_inv (initial_state input) 0"
proof -
  have "store_ok (initial_state input)"
    by (auto simp: store_ok_def no_child_initial) (auto simp: initial_state_def)
  moreover have "leaves_ok (initial_state input) 0"
    by (auto simp: leaves_ok_def initial_state_def)
  ultimately show ?thesis
    by (simp add: tree_inv_def slots_ok_def unshared_def root_starts_def no_child_initial)
qed

lemma reach_tree_inv: "reach lim input st i j li \<Longrightarrow> tree_inv st j"
proof (induction rule: reach.induct)
  case first_phase
  show ?case using tree_inv_initial by simp
next
  case (extended st i j li st' li')
  from extension_tree_inv[OF extended(3) extended(4) reach_root_inv[OF extended(1)] _ extended(2)]
    reach_bounds[OF extended(1)]
  show ?case by simp
next
  case (phase_broken st i j li st')
  from extension_tree_inv[OF phase_broken(3) phase_broken(5) reach_root_inv[OF phase_broken(1)] _ phase_broken(2)]
    reach_bounds[OF phase_broken(1)]
  show ?case by simp
next
  case (phase_done st i j li)
  then show ?case by simp
qed

lemma extensions_tree_inv:
  "extensions lim st i j li = Inr (st', j') \<Longrightarrow> tree_inv st j \<Longrightarrow> root_inv st li \<Longrightarrow> 0 \<le> j \<Longrightarrow>
   tree_inv st' j'"
proof (induction lim st i j li arbitrary: st' j' rule: extensions.induct)
  case (1 lim st i j li)
  show ?case
  proof (cases "j < i")
    case False
    with "1.prems" show ?thesis by simp
  next
    case True
    with "1.prems" obtain r where r: "extension lim st i j li = Inr r"
      by (auto split: sum.splits)
    note ti = extension_tree_inv[OF r "1.prems"(2,3,4) True]
    note ro = extension_root_inv[OF r "1.prems"(3)]
    show ?thesis
    proof (cases r)
      case (Broke s1)
      with "1.prems" True r ti show ?thesis by simp
    next
      case (Continued s1 l1)
      with "1.prems" True r have e: "extensions lim s1 i (j + 1) l1 = Inr (st', j')" by simp
      from ti ro Continued have "tree_inv s1 (j + 1)" "root_inv s1 l1" by simp_all
      from "1.IH"[OF True r Continued e this] "1.prems"(4) show ?thesis by simp
    qed
  qed
qed

lemma build_tree_inv:
  assumes "build_suffix_tree lim (initial_state input) = Inr st"
  shows "tree_inv st (int (length input) + 1)" "input_str st = input @ [dollar]" "root st = 0"
proof -
  from build_last_phase[OF assms] obtain s0 j0 j' where
    r: "reach lim input s0 (int (length input) + 1) j0 None"
    and e: "extensions lim s0 (int (length input) + 1) j0 None = Inr (st, j')" by blast
  from reach_bounds[OF r] have b: "0 \<le> j0" "j0 \<le> int (length input) + 1"
    "input_str s0 = input @ [dollar]" by simp_all
  from extensions_tree_inv[OF e reach_tree_inv[OF r] reach_root_inv[OF r] b(1)]
  have "tree_inv st j'" .
  moreover from extensions_frame[OF e] b have "j' \<le> int (length input) + 1" by simp
  ultimately show "tree_inv st (int (length input) + 1)" by (rule tree_inv_mono)
  from extensions_frame[OF e] b show "input_str st = input @ [dollar]" by simp
  from extensions_frame[OF e] reach_root_inv[OF r] show "root st = 0" by (simp add: root_inv_def)
qed

text \<open>
  C7. At every test of the while loop, that is after every new leaf and every edge split: a
  child in slot \<open>k\<close> of a node labels an edge whose first symbol encodes to \<open>k\<close>,
  so that looking that symbol up in the node's table returns the child; two children of one
  node in different slots are different nodes whose edges start with different symbols; and the
  root is an object of the store and is not a leaf.
\<close>

theorem child_slot_matches_first_symbol:
  assumes "reach lim input st i j li"
  shows "(\<forall>n k m. child st n k m \<longrightarrow>
            (\<exists>s c. start_idx (heap st ! m) = Some s \<and> py_get (input_str st) s = Inr c \<and>
                   get_child_at (heap st ! n) (int c - 36) = Inr (Some m) \<and> slot_of c = k)) \<and>
         (\<forall>n k1 m1 s1 k2 m2 s2.
            child st n k1 m1 \<and> start_idx (heap st ! m1) = Some s1 \<and>
            child st n k2 m2 \<and> start_idx (heap st ! m2) = Some s2 \<and> k1 \<noteq> k2 \<longrightarrow>
            m1 \<noteq> m2 \<and> input_str st ! nat s1 \<noteq> input_str st ! nat s2) \<and>
         root st < length (heap st) \<and> \<not> is_terminal (heap st ! root st)"
proof -
  from reach_tree_inv[OF assms] have ok: "store_ok st" and sl: "slots_ok st"
    by (simp_all add: tree_inv_def)
  have slD: "\<exists>s. start_idx (heap st ! m) = Some s \<and> 0 \<le> s \<and> s < int (length (input_str st)) \<and>
             input_str st ! nat s \<le> 126 \<and> slot_of (input_str st ! nat s) = k"
    if "child st n k m" for n k m
    using sl[unfolded slots_ok_def, rule_format, OF that] .
  have a: "\<exists>s c. start_idx (heap st ! m) = Some s \<and> py_get (input_str st) s = Inr c \<and>
                   get_child_at (heap st ! n) (int c - 36) = Inr (Some m) \<and> slot_of c = k"
    if c: "child st n k m" for n k m
  proof -
    from slD[OF c] obtain s where s: "start_idx (heap st ! m) = Some s" "0 \<le> s"
      "s < int (length (input_str st))" "input_str st ! nat s \<le> 126"
      "slot_of (input_str st ! nat s) = k"
      by (elim exE conjE)
    from c have "n < length (heap st)" by (simp add: child_def)
    with ok have l: "length (children (heap st ! n)) = 91" by (simp add: store_ok_def)
    from s(2,3) have p: "py_get (input_str st) s = Inr (input_str st ! nat s)"
      by (simp add: py_get_def)
    from c s(4,5) l have g: "get_child_at (heap st ! n) (int (input_str st ! nat s) - 36) = Inr (Some m)"
      by (simp add: get_child_at_slot child_def)
    show ?thesis
      by (rule exI[of _ s], rule exI[of _ "input_str st ! nat s"]) (simp add: s(1,5) p g)
  qed
  have b: "m1 \<noteq> m2 \<and> input_str st ! nat s1 \<noteq> input_str st ! nat s2"
    if h: "child st n k1 m1 \<and> start_idx (heap st ! m1) = Some s1 \<and>
        child st n k2 m2 \<and> start_idx (heap st ! m2) = Some s2 \<and> k1 \<noteq> k2"
    for n k1 m1 s1 k2 m2 s2
  proof -
    from h have c1: "child st n k1 m1" and c2: "child st n k2 m2"
      and e1: "start_idx (heap st ! m1) = Some s1" and e2: "start_idx (heap st ! m2) = Some s2"
      and ne: "k1 \<noteq> k2" by simp_all
    from slD[OF c1] e1 have k1: "slot_of (input_str st ! nat s1) = k1" by auto
    from slD[OF c2] e2 have k2: "slot_of (input_str st ! nat s2) = k2" by auto
    from k1 k2 ne have "input_str st ! nat s1 \<noteq> input_str st ! nat s2" by auto
    moreover from k1 k2 ne e1 e2 have "m1 \<noteq> m2" by auto
    ultimately show ?thesis by simp
  qed
  have A: "\<forall>n k m. child st n k m \<longrightarrow>
            (\<exists>s c. start_idx (heap st ! m) = Some s \<and> py_get (input_str st) s = Inr c \<and>
                   get_child_at (heap st ! n) (int c - 36) = Inr (Some m) \<and> slot_of c = k)"
    by (intro allI impI) (rule a)
  have B: "\<forall>n k1 m1 s1 k2 m2 s2.
            child st n k1 m1 \<and> start_idx (heap st ! m1) = Some s1 \<and>
            child st n k2 m2 \<and> start_idx (heap st ! m2) = Some s2 \<and> k1 \<noteq> k2 \<longrightarrow>
            m1 \<noteq> m2 \<and> input_str st ! nat s1 \<noteq> input_str st ! nat s2"
    by (intro allI impI) (rule b)
  from ok have C1: "root st < length (heap st)" and C2: "\<not> is_terminal (heap st ! root st)"
    by (simp_all add: store_ok_def)
  show ?thesis by (rule conjI[OF A conjI[OF B conjI[OF C1 C2]]])
qed

theorem child_slot_matches_first_symbol_witness:
  "\<exists>st. reach 1000 (ords ''ab'') st 3 2 None \<and>
     child st 0 61 1 \<and> start_idx (heap st ! 1) = Some 0 \<and>
     child st 0 62 2 \<and> start_idx (heap st ! 2) = Some 1 \<and>
     get_child_at (heap st ! 0) (int (input_str st ! 0) - 36) = Inr (Some 1) \<and>
     input_str st ! 0 \<noteq> input_str st ! 1 \<and> \<not> is_terminal (heap st ! root st)"
proof -
  let ?P = "phases 1000 (initial_state (ords ''ab'')) (map int [0..<3]) 0"
  have "case ?P of Inl e \<Rightarrow> False | Inr (st, j) \<Rightarrow> j = 2"
    by code_simp
  then obtain st0 where p: "?P = Inr (st0, 2)"
    by (auto split: sum.splits)
  have "case ?P of Inl e \<Rightarrow> False | Inr (st, j) \<Rightarrow> child st 0 61 1"
    by code_simp
  with p have f1: "child st0 0 61 1" by simp
  have "case ?P of Inl e \<Rightarrow> False | Inr (st, j) \<Rightarrow> start_idx (heap st ! 1) = Some 0"
    by code_simp
  with p have f2: "start_idx (heap st0 ! 1) = Some 0" by simp
  have "case ?P of Inl e \<Rightarrow> False | Inr (st, j) \<Rightarrow> child st 0 62 2"
    by code_simp
  with p have f3: "child st0 0 62 2" by simp
  have "case ?P of Inl e \<Rightarrow> False | Inr (st, j) \<Rightarrow> start_idx (heap st ! 2) = Some 1"
    by code_simp
  with p have f4: "start_idx (heap st0 ! 2) = Some 1" by simp
  have "case ?P of Inl e \<Rightarrow> False
        | Inr (st, j) \<Rightarrow> py_get (input_str st) 0 = Inr (input_str st ! 0)"
    by code_simp
  with p have f5: "py_get (input_str st0) 0 = Inr (input_str st0 ! 0)" by simp
  note f = f1 f2 f3 f4 f5
  let ?st = "st0\<lparr>global_end_marker := increment (global_end_marker st0)\<rparr>"
  have l: "3 \<le> length (input_str (initial_state (ords ''ab'')))"
    by (simp add: initial_state_def ords_def)
  have r0: "reach 1000 (ords ''ab'')
      ((initial_state (ords ''ab''))\<lparr>global_end_marker :=
         increment (global_end_marker (initial_state (ords ''ab'')))\<rparr>) (int 0) 0 None"
    using reach.first_phase[of 1000 "ords ''ab''"] by simp
  have r: "reach 1000 (ords ''ab'') ?st 3 2 None"
    using phases_reach[OF p _ l r0] by simp
  have g: "child ?st 0 61 1" "start_idx (heap ?st ! 1) = Some 0"
      "child ?st 0 62 2" "start_idx (heap ?st ! 2) = Some 1"
      "py_get (input_str ?st) 0 = Inr (input_str ?st ! 0)"
    using f by simp_all
  note T = child_slot_matches_first_symbol[OF r]
  from T[THEN conjunct1, rule_format, OF g(1)] obtain s c where
    sc: "start_idx (heap ?st ! 1) = Some s" "py_get (input_str ?st) s = Inr c"
      "get_child_at (heap ?st ! 0) (int c - 36) = Inr (Some 1)"
    by blast
  from sc(1) g(2) have "s = 0" by simp
  with sc(2) g(5) have "c = input_str ?st ! 0" by simp
  with sc(3) have 1: "get_child_at (heap ?st ! 0) (int (input_str ?st ! 0) - 36) = Inr (Some 1)"
    by simp
  have pre: "child ?st 0 61 1 \<and> start_idx (heap ?st ! 1) = Some 0 \<and>
      child ?st 0 62 2 \<and> start_idx (heap ?st ! 2) = Some 1 \<and> (61::nat) \<noteq> 62"
    using g by simp
  from T[THEN conjunct2, THEN conjunct1, rule_format, OF pre]
  have 2: "input_str ?st ! 0 \<noteq> input_str ?st ! 1" by simp
  from T[THEN conjunct2, THEN conjunct2, THEN conjunct2]
  have 3: "\<not> is_terminal (heap ?st ! root ?st)" .
  from r g(1-4) 1 2 3 show ?thesis by (intro exI[of _ ?st] conjI)
qed

end
